theory Spec2Isabelle
  imports Main "HOL-Library.Char_ord" "HOL-Library.List_Lexorder" "HOL-Library.Sublist"
begin

section \<open>The durable key-value store\<close>

text \<open>
  The gateway keeps all of its state in one Deno KV database. Deno KV is an external
  collaborator; it is modelled here by what its interface promises: \<open>get\<close>, \<open>set\<close> with an
  optional \<open>expireIn\<close>, and \<open>delete\<close>. An entry is a value together with the instant (in
  milliseconds since the epoch) at which it expires, if any; an entry is visible to \<open>get\<close>
  strictly before that instant and not from it on (Deno KV may remove an expired entry
  somewhat later; the model removes it at once). A \<open>set\<close> without \<open>expireIn\<close> stores an
  entry that never expires, also when it overwrites one that had an expiry.

  Every key of the repository is a pair of a fixed prefix and a string; each prefix is only
  ever written with values of one shape, so the store is a record with one table per prefix.
\<close>

type_synonym ('k, 'v) kv_table = "'k \<rightharpoonup> ('v \<times> int option)"

definition kv_get :: "('k, 'v) kv_table \<Rightarrow> int \<Rightarrow> 'k \<Rightarrow> 'v option" where
  "kv_get t now k =
     (case t k of
        None \<Rightarrow> None
      | Some (v, None) \<Rightarrow> Some v
      | Some (v, Some e) \<Rightarrow> if e \<le> now then None else Some v)"

definition kv_set :: "('k, 'v) kv_table \<Rightarrow> 'k \<Rightarrow> 'v \<Rightarrow> int option \<Rightarrow> ('k, 'v) kv_table" where
  "kv_set t k v ex = t(k \<mapsto> (v, ex))"

definition kv_delete :: "('k, 'v) kv_table \<Rightarrow> 'k \<Rightarrow> ('k, 'v) kv_table" where
  "kv_delete t k = t(k := None)"

text \<open>\<open>expireIn: ttl\<close> on a write made at \<open>now\<close>.\<close>

definition expireIn :: "int \<Rightarrow> int \<Rightarrow> int option" where
  "expireIn now ttl = Some (now + ttl)"

subsection \<open>The records kept in the store\<close>

text \<open>All instants (\<open>Date\<close> values) are milliseconds since the epoch.\<close>

record user_session =
  session_id :: string
  userId :: string
  accessToken :: string
  refreshToken :: string
  tokenExpiresAt :: int
  createdAt :: int
  lastAccessed :: int

record oauth_state =
  state_createdAt :: int
  used :: bool

text \<open>
  The three response shapes of the upstream API (\<open>SubscriptionResponse\<close>, \<open>VideoResponse\<close>,
  \<open>VideoDetailsResponse\<close>) share one layout: a list of items, an optional continuation
  token and an optional \<open>pageInfo\<close> pair (\<open>totalResults\<close>, \<open>resultsPerPage\<close>). The content
  of an item is never inspected by the gateway; an item is an opaque string here.
\<close>

record api_data =
  items :: "string list"
  nextPageToken :: "string option"
  pageInfo :: "(int \<times> int) option"

record cache_entry =
  data :: api_data
  cachedAt :: int
  expiresAt :: int

record rate_limit_info =
  quotaUsed :: int
  resetTime :: int
  requestCount :: int

record kv_store =
  sessions :: "(string, user_session) kv_table"
  user_sessions :: "(string, string) kv_table"
  oauth_states :: "(string, oauth_state) kv_table"
  youtube_cache :: "(string, cache_entry) kv_table"
  rate_limit :: "(string, rate_limit_info) kv_table"
  api_usage :: "(string, rate_limit_info) kv_table"

section \<open>\<open>lib/oauth.ts\<close>: the OAuth handler\<close>

record token_response =
  access_token :: string
  refresh_token :: string
  expires_in :: int

text \<open>
  What the token endpoint sends back on a refresh: the refresh token may be missing.
  The endpoint itself is a parameter of the model: a function from the refresh token that
  was posted to the reply. \<open>Unreachable\<close> is a rejected \<open>fetch\<close> (with the message of the
  error thrown), \<open>NotOk\<close> a reply whose status is not a success (with its body text).
\<close>

record raw_token_response =
  raw_access_token :: string
  raw_refresh_token :: "string option"
  raw_expires_in :: int

datatype token_endpoint_reply =
  Unreachable string
| NotOk string
| Ok raw_token_response

definition refreshAccessToken ::
  "(string \<Rightarrow> token_endpoint_reply) \<Rightarrow> string \<Rightarrow> string + token_response" where
  "refreshAccessToken idp rt =
     (case idp rt of
        Unreachable msg \<Rightarrow> Inl msg
      | NotOk err \<Rightarrow> Inl (''Token refresh failed: '' @ err)
      | Ok tokenData \<Rightarrow>
          Inr \<lparr> access_token = raw_access_token tokenData,
                refresh_token =
                  (case raw_refresh_token tokenData of
                     None \<Rightarrow> rt
                   | Some r \<Rightarrow> if r = [] then rt else r),
                expires_in = raw_expires_in tokenData \<rparr>)"

text \<open>\<open>storeTokens\<close>; the fresh identifier of \<open>crypto.randomUUID()\<close> is the argument \<open>uuid\<close>.\<close>

definition storeTokens ::
  "kv_store \<Rightarrow> int \<Rightarrow> string \<Rightarrow> string \<Rightarrow> token_response \<Rightarrow> kv_store \<times> string" where
  "storeTokens kv now uuid uid tokens =
     (let sessionId = uuid;
          expAt = now + expires_in tokens * 1000;
          session = \<lparr> session_id = sessionId, userId = uid,
                      accessToken = access_token tokens,
                      refreshToken = refresh_token tokens,
                      tokenExpiresAt = expAt, createdAt = now, lastAccessed = now \<rparr>;
          kv1 = kv\<lparr>sessions := kv_set (sessions kv) sessionId session None\<rparr>;
          kv2 = kv1\<lparr>user_sessions := kv_set (user_sessions kv1) uid sessionId None\<rparr>
      in (kv2, sessionId))"

definition getStoredTokens ::
  "kv_store \<Rightarrow> int \<Rightarrow> string \<Rightarrow> kv_store \<times> user_session option" where
  "getStoredTokens kv now sessionId =
     (case kv_get (sessions kv) now sessionId of
        None \<Rightarrow> (kv, None)
      | Some s \<Rightarrow>
          (let session = s\<lparr>lastAccessed := now\<rparr>
           in (kv\<lparr>sessions := kv_set (sessions kv) sessionId session None\<rparr>, Some session)))"

text \<open>The stored pointer is a string; the empty string is falsy in \<open>!sessionIdResult.value\<close>.\<close>

definition getUserSession ::
  "kv_store \<Rightarrow> int \<Rightarrow> string \<Rightarrow> kv_store \<times> user_session option" where
  "getUserSession kv now uid =
     (case kv_get (user_sessions kv) now uid of
        None \<Rightarrow> (kv, None)
      | Some sessionId \<Rightarrow>
          if sessionId = [] then (kv, None) else getStoredTokens kv now sessionId)"

definition deleteSession :: "kv_store \<Rightarrow> int \<Rightarrow> string \<Rightarrow> kv_store" where
  "deleteSession kv now sessionId =
     (case getStoredTokens kv now sessionId of
        (kv1, None) \<Rightarrow> kv1
      | (kv1, Some session) \<Rightarrow>
          (let kv2 = kv1\<lparr>sessions := kv_delete (sessions kv1) sessionId\<rparr>
           in kv2\<lparr>user_sessions := kv_delete (user_sessions kv2) (userId session)\<rparr>))"

definition isTokenExpired :: "int \<Rightarrow> user_session \<Rightarrow> bool" where
  "isTokenExpired now session =
     (let bufferTime = 5 * 60 * 1000 in now > tokenExpiresAt session - bufferTime)"

text \<open>
  \<open>ensureValidToken\<close>. The error it throws is a plain \<open>Error\<close> whose message starts with
  \<open>Token refresh failed: \<close>; the model returns that message on the left.
\<close>

definition ensureValidToken ::
  "(string \<Rightarrow> token_endpoint_reply) \<Rightarrow> kv_store \<Rightarrow> int \<Rightarrow> user_session
     \<Rightarrow> kv_store \<times> (string + user_session)" where
  "ensureValidToken idp kv now session =
     (if isTokenExpired now session then
        (case refreshAccessToken idp (refreshToken session) of
           Inr newTokens \<Rightarrow>
             (let updatedSession = session\<lparr> accessToken := access_token newTokens,
                                            refreshToken := refresh_token newTokens,
                                            tokenExpiresAt := now + expires_in newTokens * 1000,
                                            lastAccessed := now \<rparr>
              in (kv\<lparr>sessions := kv_set (sessions kv) (session_id session) updatedSession None\<rparr>,
                  Inr updatedSession))
         | Inl errorMessage \<Rightarrow>
             (deleteSession kv now (session_id session),
              Inl (''Token refresh failed: '' @ errorMessage)))
      else (kv, Inr session))"

section \<open>\<open>routes/api/auth/login.ts\<close> and \<open>routes/api/auth/callback.ts\<close>\<close>

text \<open>
  The two handlers, with each \<open>return new Response\<close> of the source as one constructor of
  the outcome. \<open>configured\<close> says that both \<open>GOOGLE_CLIENT_ID\<close> and
  \<open>GOOGLE_CLIENT_SECRET\<close> are set; \<open>uuid\<close> is the value of \<open>crypto.randomUUID()\<close>.
\<close>

datatype login_outcome =
  LoginMethodNotAllowed
| LoginConfigMissing
| LoginRedirect string

definition login_handler ::
  "bool \<Rightarrow> string \<Rightarrow> kv_store \<Rightarrow> int \<Rightarrow> string \<Rightarrow> kv_store \<times> login_outcome" where
  "login_handler configured uuid kv now req_method =
     (if req_method \<noteq> ''GET'' then (kv, LoginMethodNotAllowed)
      else if \<not> configured then (kv, LoginConfigMissing)
      else
        (let state = uuid;
             kv1 = kv\<lparr>oauth_states :=
                       kv_set (oauth_states kv) state
                         \<lparr> state_createdAt = now, used = False \<rparr>
                         (expireIn now (10 * 60 * 1000))\<rparr>
         in (kv1, LoginRedirect state)))"

record callback_request =
  req_method :: string
  req_code :: "string option"
  req_state :: "string option"
  req_error :: "string option"

text \<open>
  What the callback needs from outside: the configuration, the token endpoint
  (\<open>exchangeCodeForTokens\<close>: an error or the tokens), the user-info endpoint (the user id,
  or nothing when the call fails) and the fresh session id.
\<close>

record callback_env =
  configured :: bool
  exchange :: "string \<Rightarrow> string + token_response"
  userinfo :: "string \<Rightarrow> string option"
  fresh_uuid :: string

datatype callback_outcome =
  MethodNotAllowed
| OAuthErrorRedirect
| MissingCodeOrState
| InvalidOrExpiredState
| ConfigMissing
| AuthFailedRedirect
| AuthSuccessRedirect string

fun callback_status :: "callback_outcome \<Rightarrow> nat" where
  "callback_status MethodNotAllowed = 405"
| "callback_status OAuthErrorRedirect = 302"
| "callback_status MissingCodeOrState = 400"
| "callback_status InvalidOrExpiredState = 400"
| "callback_status ConfigMissing = 500"
| "callback_status AuthFailedRedirect = 302"
| "callback_status (AuthSuccessRedirect sessionId) = 302"

text \<open>A query parameter is truthy when it is present and not empty.\<close>

fun truthy :: "string option \<Rightarrow> bool" where
  "truthy None = False"
| "truthy (Some s) = (s \<noteq> [])"

definition callback_handler ::
  "callback_env \<Rightarrow> kv_store \<Rightarrow> int \<Rightarrow> callback_request \<Rightarrow> kv_store \<times> callback_outcome" where
  "callback_handler env kv now req =
     (if req_method req \<noteq> ''GET'' then (kv, MethodNotAllowed)
      else if truthy (req_error req) then (kv, OAuthErrorRedirect)
      else if \<not> truthy (req_code req) \<or> \<not> truthy (req_state req) then (kv, MissingCodeOrState)
      else
        (case (req_code req, req_state req) of
           (Some code, Some state) \<Rightarrow>
             (case kv_get (oauth_states kv) now state of
                None \<Rightarrow> (kv, InvalidOrExpiredState)
              | Some stateData \<Rightarrow>
                  if used stateData then (kv, InvalidOrExpiredState)
                  else
                    (let kv1 = kv\<lparr>oauth_states :=
                                   kv_set (oauth_states kv) state (stateData\<lparr>used := True\<rparr>) None\<rparr>
                     in if \<not> configured env then (kv1, ConfigMissing)
                        else
                          (case exchange env code of
                             Inl err \<Rightarrow> (kv1, AuthFailedRedirect)
                           | Inr tokens \<Rightarrow>
                               (case userinfo env (access_token tokens) of
                                  None \<Rightarrow> (kv1, AuthFailedRedirect)
                                | Some uid \<Rightarrow>
                                    (case storeTokens kv1 now (fresh_uuid env) uid tokens of
                                       (kv2, sessionId) \<Rightarrow> (kv2, AuthSuccessRedirect sessionId))))))
         | _ \<Rightarrow> (kv, MissingCodeOrState)))"

section \<open>Rendering numbers and dates as JavaScript does\<close>

definition digit_char :: "nat \<Rightarrow> char" where
  "digit_char n = (if n < 10 then char_of (48 + n) else char_of (87 + n))"

function show_nat :: "nat \<Rightarrow> string" where
  "show_nat n = (if n < 10 then [digit_char n] else show_nat (n div 10) @ [digit_char (n mod 10)])"
  by pat_completeness auto
termination
  by (relation "measure id") auto

declare show_nat.simps [simp del]

text \<open>
  \<open>Number.prototype.toString()\<close> on an integer of magnitude below \<open>10^21\<close> (from there on
  JavaScript switches to the exponent form).
\<close>

definition show_int :: "int \<Rightarrow> string" where
  "show_int i = (if i < 0 then CHR ''-'' # show_nat (nat (- i)) else show_nat (nat i))"

text \<open>\<open>String(n).padStart(w, '0')\<close>.\<close>

definition pad_nat :: "nat \<Rightarrow> nat \<Rightarrow> string" where
  "pad_nat w n = replicate (w - length (show_nat n)) CHR ''0'' @ show_nat n"

text \<open>
  The proleptic Gregorian date (year, month, day) of a day number counted from
  1970-01-01, as \<open>Date\<close> computes it in UTC.
\<close>

definition civil_from_days :: "int \<Rightarrow> int \<times> nat \<times> nat" where
  "civil_from_days z0 =
     (let z = z0 + 719468;
          era = z div 146097;
          doe = z - era * 146097;
          yoe = (doe - doe div 1460 + doe div 36524 - doe div 146096) div 365;
          y = yoe + era * 400;
          doy = doe - (365 * yoe + yoe div 4 - yoe div 100);
          mp = (5 * doy + 2) div 153;
          d = doy - (153 * mp + 2) div 5 + 1;
          m = (if mp < 10 then mp + 3 else mp - 9)
      in (if m \<le> 2 then y + 1 else y, nat m, nat d))"

definition show_year :: "int \<Rightarrow> string" where
  "show_year y =
     (if 0 \<le> y \<and> y \<le> 9999 then pad_nat 4 (nat y)
      else if y < 0 then CHR ''-'' # pad_nat 6 (nat (- y))
      else CHR ''+'' # pad_nat 6 (nat y))"

text \<open>
  \<open>new Date(t).toISOString().split('T')[0]\<close>: the UTC calendar date of the instant \<open>t\<close>.
  It depends on \<open>t\<close> only through the day number \<open>t div 86400000\<close>.
\<close>

definition toISODate :: "int \<Rightarrow> string" where
  "toISODate t =
     (case civil_from_days (t div 86400000) of
        (y, m, d) \<Rightarrow> show_year y @ ''-'' @ pad_nat 2 m @ ''-'' @ pad_nat 2 d)"

definition toISOString :: "int \<Rightarrow> string" where
  "toISOString t =
     (let ms = nat (t mod 86400000)
      in toISODate t @ ''T'' @ pad_nat 2 (ms div 3600000) @ '':'' @ pad_nat 2 (ms div 60000 mod 60)
           @ '':'' @ pad_nat 2 (ms div 1000 mod 60) @ ''.'' @ pad_nat 3 (ms mod 1000) @ ''Z'')"

text \<open>The number that a string of decimal digits denotes: what \<open>show_nat\<close> is the rendering of.\<close>

definition decimal_of :: "string \<Rightarrow> nat" where
  "decimal_of s = foldl (\<lambda>acc ch. 10 * acc + (of_char ch - 48)) 0 s"

section \<open>\<open>lib/youtube-api.ts\<close>: the API client\<close>

subsection \<open>Requests, replies and errors\<close>

text \<open>
  An upstream call is the path under \<open>baseUrl\<close>, the query parameters in the order in which
  \<open>URLSearchParams\<close> holds them (before percent-encoding), and the bearer token.
\<close>

record request =
  url_path :: string
  url_params :: "(string \<times> string) list"
  bearer :: string

text \<open>
  A reply of the upstream API: status line, the two parts of an error body that the client
  reads (\<open>error.errors[0].reason\<close> and \<open>error.code\<close>), and the outcome of
  \<open>response.json()\<close> on the body: the message of the parse error, or the parsed data.
\<close>

record http_response =
  status :: int
  statusText :: string
  error_reason :: "string option"
  error_code :: "string option"
  payload :: "string + api_data"

definition ok :: "http_response \<Rightarrow> bool" where
  "ok response = (200 \<le> status response \<and> status response \<le> 299)"

datatype fetch_result =
  Rejected string
| Responded http_response

text \<open>
  The upstream service is a parameter of the model: it answers a request, and its answer
  may depend on all the requests issued before.
\<close>

type_synonym upstream = "request list \<Rightarrow> request \<Rightarrow> fetch_result"

record api_error =
  message :: string
  err_status :: "int option"
  err_code :: "string option"
  quotaExceeded :: bool

text \<open>\<open>new Error(msg)\<close>: no status, no code, not marked as quota-exceeded.\<close>

definition plain_error :: "string \<Rightarrow> api_error" where
  "plain_error msg = \<lparr> message = msg, err_status = None, err_code = None, quotaExceeded = False \<rparr>"

text \<open>
  The state the client works on: the store, the wall clock, and the upstream calls issued
  so far. Store operations and HTTP calls take no time; only \<open>delay\<close> moves the clock.
\<close>

record world =
  kv :: kv_store
  now :: int
  requests :: "request list"

definition delay :: "world \<Rightarrow> int \<Rightarrow> world" where
  "delay w ms = w\<lparr>now := now w + ms\<rparr>"

subsection \<open>Cache keys\<close>

definition byte_hex :: "char \<Rightarrow> string" where
  "byte_hex b = [digit_char (of_char b div 16), digit_char (of_char b mod 16)]"

text \<open>
  \<open>hashToken\<close>. A string is the list of its UTF-8 bytes, so \<open>encoder.encode(token)\<close> is
  the token itself.
\<close>

definition hashToken :: "string \<Rightarrow> string" where
  "hashToken token = take 16 (concat (map byte_hex token))"

text \<open>\<open>p || d\<close> for an optional string \<open>p\<close>.\<close>

fun or_default :: "string option \<Rightarrow> string \<Rightarrow> string" where
  "or_default None d = d"
| "or_default (Some s) d = (if s = [] then d else s)"

fun join_comma :: "string list \<Rightarrow> string" where
  "join_comma [] = []"
| "join_comma [x] = x"
| "join_comma (x # y # ys) = x @ '','' @ join_comma (y # ys)"

text \<open>
  The three keys, each as a function of all the arguments of the method that computes it
  (with \<open>pageToken\<close> and \<open>publishedAfter\<close> optional), so that what a key does not
  depend on is a theorem and not a matter of typing. \<open>publishedAfter\<close> is a valid
  \<open>Date\<close>, as milliseconds since the epoch.
\<close>

definition subscriptions_cacheKey :: "string \<Rightarrow> int \<Rightarrow> string option \<Rightarrow> string" where
  "subscriptions_cacheKey token maxResults pageToken =
     ''subscriptions:'' @ hashToken token @ '':'' @ or_default pageToken ''first''
       @ '':'' @ show_int maxResults"

definition channel_videos_cacheKey ::
  "string \<Rightarrow> string \<Rightarrow> int \<Rightarrow> string option \<Rightarrow> int option \<Rightarrow> string" where
  "channel_videos_cacheKey token channelId maxResults pageToken publishedAfter =
     ''channel_videos:'' @ channelId @ '':'' @ or_default pageToken ''first''
       @ '':'' @ show_int maxResults
       @ '':'' @ or_default (map_option toISOString publishedAfter) ''all''"

text \<open>
  \<open>batch.sort().join(',')\<close>: the default sort orders strings by their UTF-16 code units,
  which for ids made of ASCII characters is the order of their bytes used here.
\<close>

definition video_details_cacheKey :: "string \<Rightarrow> string list \<Rightarrow> string" where
  "video_details_cacheKey token batch = ''video_details:'' @ join_comma (sort batch)"

subsection \<open>Cache, quota check and usage recording\<close>

definition getFromCache :: "world \<Rightarrow> string \<Rightarrow> world \<times> api_data option" where
  "getFromCache w key =
     (case kv_get (youtube_cache (kv w)) (now w) key of
        None \<Rightarrow> (w, None)
      | Some cacheEntry \<Rightarrow>
          if now w > expiresAt cacheEntry
          then (w\<lparr>kv := (kv w)\<lparr>youtube_cache := kv_delete (youtube_cache (kv w)) key\<rparr>\<rparr>, None)
          else (w, Some (data cacheEntry)))"

definition setCache :: "world \<Rightarrow> string \<Rightarrow> api_data \<Rightarrow> int \<Rightarrow> world" where
  "setCache w key d ttl =
     (let cacheEntry = \<lparr> data = d, cachedAt = now w, expiresAt = now w + ttl \<rparr>
      in w\<lparr>kv := (kv w)\<lparr>youtube_cache :=
                         kv_set (youtube_cache (kv w)) key cacheEntry (expireIn (now w) ttl)\<rparr>\<rparr>)"

definition defaultCacheTTL :: int where "defaultCacheTTL = 5 * 60 * 1000"
definition subscriptionsCacheTTL :: int where "subscriptionsCacheTTL = 30 * 60 * 1000"
definition videosCacheTTL :: int where "videosCacheTTL = 10 * 60 * 1000"

text \<open>\<open>checkRateLimit\<close>: the error it throws, if any.\<close>

definition checkRateLimit :: "world \<Rightarrow> api_error option" where
  "checkRateLimit w =
     (case kv_get (rate_limit (kv w)) (now w) ''youtube_api'' of
        None \<Rightarrow> None
      | Some rateLimitInfo \<Rightarrow>
          if quotaUsed rateLimitInfo > 9000
          then Some (plain_error ''Approaching daily quota limit'')
          else None)"

definition handleRateLimit :: "world \<Rightarrow> world" where
  "handleRateLimit w = (let backoffTime = min (1000 * 2 ^ 3) 30000 in delay w backoffTime)"

definition quotaCost :: "string \<Rightarrow> int" where
  "quotaCost endpoint =
     (if endpoint = ''subscriptions'' then 1
      else if endpoint = ''search'' then 100
      else if endpoint = ''videos'' then 1
      else 1)"

definition trackAPIUsage :: "world \<Rightarrow> string \<Rightarrow> int \<Rightarrow> world" where
  "trackAPIUsage w endpoint st =
     (let today = toISODate (now w);
          currentUsage =
            (case kv_get (api_usage (kv w)) (now w) today of
               Some u \<Rightarrow> u
             | None \<Rightarrow> \<lparr> quotaUsed = 0, resetTime = now w + 24 * 60 * 60 * 1000,
                          requestCount = 0 \<rparr>);
          updatedUsage = \<lparr> quotaUsed = quotaUsed currentUsage + quotaCost endpoint,
                           resetTime = resetTime currentUsage,
                           requestCount = requestCount currentUsage + 1 \<rparr>
      in w\<lparr>kv := (kv w)\<lparr>api_usage :=
                         kv_set (api_usage (kv w)) today updatedUsage
                           (expireIn (now w) (24 * 60 * 60 * 1000))\<rparr>\<rparr>)"

definition getUsageStats :: "world \<Rightarrow> rate_limit_info option" where
  "getUsageStats w = kv_get (api_usage (kv w)) (now w) (toISODate (now w))"

subsection \<open>Issuing a request\<close>

definition makeRequest :: "upstream \<Rightarrow> world \<Rightarrow> request \<Rightarrow> world \<times> (api_error + http_response)" where
  "makeRequest net w req =
     (case checkRateLimit w of
        Some e \<Rightarrow> (w, Inl e)
      | None \<Rightarrow>
          (let w1 = w\<lparr>requests := requests w @ [req]\<rparr>
           in case net (requests w) req of
                Rejected msg \<Rightarrow> (w1, Inl (plain_error msg))
              | Responded response \<Rightarrow>
                  if \<not> ok response then
                    (if status response = 403 \<and> error_reason response = Some ''quotaExceeded''
                     then (w1, Inl \<lparr> message = ''YouTube API quota exceeded'',
                                      err_status = Some 403, err_code = Some ''quotaExceeded'',
                                      quotaExceeded = True \<rparr>)
                     else if status response = 429
                     then (handleRateLimit w1, Inl (plain_error ''Rate limited - retry after backoff''))
                     else (w1, Inl \<lparr> message = ''YouTube API error: '' @ show_int (status response)
                                                  @ '' '' @ statusText response,
                                      err_status = Some (status response),
                                      err_code = error_code response,
                                      quotaExceeded = False \<rparr>))
                  else (w1, Inr response)))"

definition handleAPIError :: "api_error \<Rightarrow> string \<Rightarrow> api_error" where
  "handleAPIError e operation = e\<lparr>message := operation @ '' failed: '' @ message e\<rparr>"

text \<open>
  The part the three read operations share after a cache miss: issue the request, parse the
  body, store it in the cache, record the usage. Any error passes through \<open>handleAPIError\<close>.
\<close>

definition fetch_and_cache ::
  "upstream \<Rightarrow> world \<Rightarrow> request \<Rightarrow> string \<Rightarrow> int \<Rightarrow> string \<Rightarrow> string
     \<Rightarrow> world \<times> (api_error + api_data)" where
  "fetch_and_cache net w req cacheKey ttl endpoint operation =
     (case makeRequest net w req of
        (w1, Inl e) \<Rightarrow> (w1, Inl (handleAPIError e operation))
      | (w1, Inr response) \<Rightarrow>
          (case payload response of
             Inl msg \<Rightarrow> (w1, Inl (handleAPIError (plain_error msg) operation))
           | Inr d \<Rightarrow>
               (let w2 = setCache w1 cacheKey d ttl;
                    w3 = trackAPIUsage w2 endpoint (status response)
                in (w3, Inr d))))"

subsection \<open>The read operations\<close>

definition getSubscriptions ::
  "upstream \<Rightarrow> world \<Rightarrow> string \<Rightarrow> int \<Rightarrow> string option \<Rightarrow> world \<times> (api_error + api_data)" where
  "getSubscriptions net w token maxResults pageToken =
     (let cacheKey = subscriptions_cacheKey token maxResults pageToken
      in case getFromCache w cacheKey of
           (w1, Some cached) \<Rightarrow> (w1, Inr cached)
         | (w1, None) \<Rightarrow>
             (let params = [(''part'', ''snippet''), (''mine'', ''true''),
                            (''maxResults'', show_int maxResults), (''order'', ''alphabetical'')]
                           @ (if truthy pageToken then [(''pageToken'', or_default pageToken [])] else []);
                  req = \<lparr> url_path = ''/subscriptions'', url_params = params, bearer = token \<rparr>
              in fetch_and_cache net w1 req cacheKey subscriptionsCacheTTL
                   ''subscriptions'' ''getSubscriptions''))"

definition channel_videos_request ::
  "string \<Rightarrow> string \<Rightarrow> int \<Rightarrow> string option \<Rightarrow> int option \<Rightarrow> request" where
  "channel_videos_request token channelId maxResults pageToken publishedAfter =
     \<lparr> url_path = ''/search'',
       url_params = [(''part'', ''snippet''), (''channelId'', channelId), (''type'', ''video''),
                     (''order'', ''date''), (''maxResults'', show_int maxResults)]
                    @ (if truthy pageToken then [(''pageToken'', or_default pageToken [])] else [])
                    @ (case publishedAfter of
                         None \<Rightarrow> []
                       | Some t \<Rightarrow> [(''publishedAfter'', toISOString t)]),
       bearer = token \<rparr>"

definition getChannelVideos ::
  "upstream \<Rightarrow> world \<Rightarrow> string \<Rightarrow> string \<Rightarrow> int \<Rightarrow> string option \<Rightarrow> int option
     \<Rightarrow> world \<times> (api_error + api_data)" where
  "getChannelVideos net w token channelId maxResults pageToken publishedAfter =
     (let cacheKey = channel_videos_cacheKey token channelId maxResults pageToken publishedAfter
      in case getFromCache w cacheKey of
           (w1, Some cached) \<Rightarrow> (w1, Inr cached)
         | (w1, None) \<Rightarrow>
             fetch_and_cache net w1
               (channel_videos_request token channelId maxResults pageToken publishedAfter)
               cacheKey videosCacheTTL ''search'' ''getChannelVideos'')"

text \<open>
  The loop \<open>for (let i = 0; i < xs.length; i += batchSize) batches.push(xs.slice(i, i + batchSize))\<close>,
  from index \<open>i\<close> on. Both callers use a positive constant for \<open>batchSize\<close>.
\<close>

function batches_from :: "nat \<Rightarrow> 'a list \<Rightarrow> nat \<Rightarrow> 'a list list" where
  "batches_from batchSize xs i =
     (if i < length xs \<and> 0 < batchSize
      then take batchSize (drop i xs) # batches_from batchSize xs (i + batchSize)
      else [])"
  by pat_completeness auto
termination
  by (relation "measure (\<lambda>(batchSize, xs, i). length xs - i)") auto

declare batches_from.simps [simp del]

definition video_details_request :: "string \<Rightarrow> string list \<Rightarrow> request" where
  "video_details_request token batch =
     \<lparr> url_path = ''/videos'',
       url_params = [(''part'', ''snippet,statistics,contentDetails''),
                     (''id'', join_comma (sort batch))],
       bearer = token \<rparr>"

text \<open>
  The loop of \<open>getVideoDetails\<close> over the batches, with the items collected so far.
  \<open>batch.sort()\<close> sorts the batch in place, so the request carries the sorted ids too.
\<close>

fun video_details_loop ::
  "upstream \<Rightarrow> world \<Rightarrow> string \<Rightarrow> string list list \<Rightarrow> string list
     \<Rightarrow> world \<times> (api_error + string list)" where
  "video_details_loop net w token [] allResults = (w, Inr allResults)"
| "video_details_loop net w token (batch # rest) allResults =
     (let cacheKey = video_details_cacheKey token batch
      in case getFromCache w cacheKey of
           (w1, Some batchData) \<Rightarrow>
             video_details_loop net w1 token rest (allResults @ items batchData)
         | (w1, None) \<Rightarrow>
             (case fetch_and_cache net w1 (video_details_request token batch)
                     cacheKey videosCacheTTL ''videos'' ''getVideoDetails'' of
                (w2, Inl e) \<Rightarrow> (w2, Inl e)
              | (w2, Inr batchData) \<Rightarrow>
                  video_details_loop net w2 token rest (allResults @ items batchData)))"

definition getVideoDetails ::
  "upstream \<Rightarrow> world \<Rightarrow> string \<Rightarrow> string list \<Rightarrow> world \<times> (api_error + api_data)" where
  "getVideoDetails net w token videoIds =
     (if length videoIds = 0
      then (w, Inr \<lparr> items = [], nextPageToken = None, pageInfo = None \<rparr>)
      else
        (case video_details_loop net w token (batches_from 50 videoIds 0) [] of
           (w1, Inl e) \<Rightarrow> (w1, Inl e)
         | (w1, Inr allResults) \<Rightarrow>
             (w1, Inr \<lparr> items = allResults, nextPageToken = None, pageInfo = None \<rparr>)))"

subsection \<open>The multi-channel batch operation\<close>

definition empty_videos :: api_data where
  "empty_videos = \<lparr> items = [], nextPageToken = None, pageInfo = Some (0, 0) \<rparr>"

text \<open>
  One element of \<open>batch.map(async (channelId) => ...)\<close>: the single-channel call inside
  its \<open>try\<close>/\<open>catch\<close>, when nothing else runs between its steps.
\<close>

definition channel_or_empty ::
  "upstream \<Rightarrow> world \<Rightarrow> string \<Rightarrow> int \<Rightarrow> int option \<Rightarrow> string \<Rightarrow> world \<times> (string \<times> api_data)" where
  "channel_or_empty net w token maxResultsPerChannel publishedAfter channelId =
     (case getChannelVideos net w token channelId maxResultsPerChannel None publishedAfter of
        (w1, Inr videos) \<Rightarrow> (w1, (channelId, videos))
      | (w1, Inl e) \<Rightarrow> (w1, (channelId, empty_videos)))"

text \<open>
  \<open>batch.map\<close> starts all the calls of a batch, and \<open>Promise.all\<close> waits for all of them:
  the calls run together, and control passes from one to another at every \<open>await\<close> of a
  store operation or of \<open>fetch\<close>. A call in flight is at one of the following points of
  \<open>getChannelVideos\<close> (inside the \<open>try\<close>/\<open>catch\<close> of the batch), named after the operation
  it performs next:

    \<^item> \<open>ReadCache\<close>: \<open>kv.get\<close> in \<open>getFromCache\<close>;
    \<^item> \<open>DeleteExpired\<close>: \<open>kv.delete\<close> in \<open>getFromCache\<close>, after an expired entry was read;
    \<^item> \<open>ReadRateLimit\<close>: \<open>kv.get\<close> in \<open>checkRateLimit\<close>;
    \<^item> \<open>SendRequest\<close>: \<open>fetch\<close> in \<open>makeRequest\<close>, and the classification of the reply;
    \<^item> \<open>Backoff\<close>: \<open>delay\<close> in \<open>handleRateLimit\<close>, after a reply with status 429;
    \<^item> \<open>WriteCache\<close>: \<open>kv.set\<close> in \<open>setCache\<close>, with the reply and its parsed body;
    \<^item> \<open>ReadUsage\<close>: \<open>kv.get\<close> in \<open>trackAPIUsage\<close>;
    \<^item> \<open>WriteUsage\<close>: \<open>kv.set\<close> in \<open>trackAPIUsage\<close>, with the date and the record computed
      from what \<open>ReadUsage\<close> read;
    \<^item> \<open>Returned\<close>: the call is over, with the videos it yields for its channel (the empty
      result when it threw).
\<close>

datatype channel_task =
  ReadCache
| DeleteExpired
| ReadRateLimit
| SendRequest
| Backoff
| WriteCache http_response api_data
| ReadUsage http_response api_data
| WriteUsage api_data string rate_limit_info
| Returned api_data

text \<open>
  One step of the call for \<open>channelId\<close>: the operation it is waiting for takes place. Next to
  the world, the state holds the instant \<open>wake\<close> at which the last timer of the batch fires:
  a call that backs off is over at that instant, while the other calls go on at the current
  one.
\<close>

fun task_step ::
  "upstream \<Rightarrow> string \<Rightarrow> int \<Rightarrow> int option \<Rightarrow> string \<Rightarrow> world \<times> int \<Rightarrow> channel_task
     \<Rightarrow> (world \<times> int) \<times> channel_task" where
  "task_step net token maxResults publishedAfter channelId (w, wake) ReadCache =
     (case kv_get (youtube_cache (kv w)) (now w)
             (channel_videos_cacheKey token channelId maxResults None publishedAfter) of
        None \<Rightarrow> ((w, wake), ReadRateLimit)
      | Some cacheEntry \<Rightarrow>
          if now w > expiresAt cacheEntry then ((w, wake), DeleteExpired)
          else ((w, wake), Returned (data cacheEntry)))"
| "task_step net token maxResults publishedAfter channelId (w, wake) DeleteExpired =
     ((w\<lparr>kv := (kv w)\<lparr>youtube_cache :=
                       kv_delete (youtube_cache (kv w))
                         (channel_videos_cacheKey token channelId maxResults None publishedAfter)\<rparr>\<rparr>,
       wake), ReadRateLimit)"
| "task_step net token maxResults publishedAfter channelId (w, wake) ReadRateLimit =
     (case checkRateLimit w of
        Some e \<Rightarrow> ((w, wake), Returned empty_videos)
      | None \<Rightarrow> ((w, wake), SendRequest))"
| "task_step net token maxResults publishedAfter channelId (w, wake) SendRequest =
     (let req = channel_videos_request token channelId maxResults None publishedAfter;
          w1 = w\<lparr>requests := requests w @ [req]\<rparr>
      in case net (requests w) req of
           Rejected msg \<Rightarrow> ((w1, wake), Returned empty_videos)
         | Responded response \<Rightarrow>
             if \<not> ok response then
               (if status response = 403 \<and> error_reason response = Some ''quotaExceeded''
                then ((w1, wake), Returned empty_videos)
                else if status response = 429 then ((w1, wake), Backoff)
                else ((w1, wake), Returned empty_videos))
             else (case payload response of
                     Inl msg \<Rightarrow> ((w1, wake), Returned empty_videos)
                   | Inr d \<Rightarrow> ((w1, wake), WriteCache response d)))"
| "task_step net token maxResults publishedAfter channelId (w, wake) Backoff =
     ((w, max wake (now (handleRateLimit w))), Returned empty_videos)"
| "task_step net token maxResults publishedAfter channelId (w, wake) (WriteCache response d) =
     ((setCache w (channel_videos_cacheKey token channelId maxResults None publishedAfter) d
         videosCacheTTL, wake),
      ReadUsage response d)"
| "task_step net token maxResults publishedAfter channelId (w, wake) (ReadUsage response d) =
     (let today = toISODate (now w);
          currentUsage =
            (case kv_get (api_usage (kv w)) (now w) today of
               Some u \<Rightarrow> u
             | None \<Rightarrow> \<lparr> quotaUsed = 0, resetTime = now w + 24 * 60 * 60 * 1000,
                          requestCount = 0 \<rparr>);
          updatedUsage = \<lparr> quotaUsed = quotaUsed currentUsage + quotaCost ''search'',
                           resetTime = resetTime currentUsage,
                           requestCount = requestCount currentUsage + 1 \<rparr>
      in ((w, wake), WriteUsage d today updatedUsage))"
| "task_step net token maxResults publishedAfter channelId (w, wake) (WriteUsage d today updatedUsage) =
     ((w\<lparr>kv := (kv w)\<lparr>api_usage :=
                       kv_set (api_usage (kv w)) today updatedUsage
                         (expireIn (now w) (24 * 60 * 60 * 1000))\<rparr>\<rparr>,
       wake), Returned d)"
| "task_step net token maxResults publishedAfter channelId (w, wake) (Returned videos) =
     ((w, wake), Returned videos)"

text \<open>The number of steps that a call at the given point has before it, at most.\<close>

fun task_rank :: "channel_task \<Rightarrow> nat" where
  "task_rank ReadCache = 7"
| "task_rank DeleteExpired = 6"
| "task_rank ReadRateLimit = 5"
| "task_rank SendRequest = 4"
| "task_rank (WriteCache response d) = 3"
| "task_rank (ReadUsage response d) = 2"
| "task_rank (WriteUsage d today updatedUsage) = 1"
| "task_rank Backoff = 1"
| "task_rank (Returned videos) = 0"

text \<open>A call runs on to its end with no other call in between.\<close>

function (sequential) run_to_end ::
  "upstream \<Rightarrow> string \<Rightarrow> int \<Rightarrow> int option \<Rightarrow> string \<Rightarrow> world \<times> int \<Rightarrow> channel_task
     \<Rightarrow> (world \<times> int) \<times> api_data" where
  "run_to_end net token maxResults publishedAfter channelId (w, wake) (Returned videos) =
     ((w, wake), videos)"
| "run_to_end net token maxResults publishedAfter channelId (w, wake) task =
     (case task_step net token maxResults publishedAfter channelId (w, wake) task of
        ((w1, wake1), task1) \<Rightarrow>
          run_to_end net token maxResults publishedAfter channelId (w1, wake1) task1)"
  by pat_completeness auto
termination
  by (relation "measure (\<lambda>(net, token, maxResults, publishedAfter, channelId, s, task). task_rank task)")
     (auto simp: Let_def split: option.splits if_splits fetch_result.splits sum.splits)

text \<open>
  The order in which the calls of a batch take their steps is not fixed by the program: it
  is a parameter, the list of the positions (in the batch) of the calls that take the
  successive steps. A position outside the batch takes no step, and so does a call that is
  over.
\<close>

fun run_schedule ::
  "upstream \<Rightarrow> string \<Rightarrow> int \<Rightarrow> int option \<Rightarrow> nat list \<Rightarrow> world \<times> int
     \<Rightarrow> (string \<times> channel_task) list \<Rightarrow> (world \<times> int) \<times> (string \<times> channel_task) list" where
  "run_schedule net token maxResults publishedAfter [] s tasks = (s, tasks)"
| "run_schedule net token maxResults publishedAfter (i # schedule) s tasks =
     (if i < length tasks then
        (case tasks ! i of
           (channelId, task) \<Rightarrow>
             (case task_step net token maxResults publishedAfter channelId s task of
                (s1, task1) \<Rightarrow>
                  run_schedule net token maxResults publishedAfter schedule s1
                    (tasks[i := (channelId, task1)])))
      else run_schedule net token maxResults publishedAfter schedule s tasks)"

text \<open>
  When the schedule is used up, the calls still in flight run to their end, one after the
  other in the order of the batch; so every schedule lets every call finish.
\<close>

fun finish_all ::
  "upstream \<Rightarrow> string \<Rightarrow> int \<Rightarrow> int option \<Rightarrow> world \<times> int \<Rightarrow> (string \<times> channel_task) list
     \<Rightarrow> (world \<times> int) \<times> (string \<times> api_data) list" where
  "finish_all net token maxResults publishedAfter s [] = (s, [])"
| "finish_all net token maxResults publishedAfter s ((channelId, task) # rest) =
     (case run_to_end net token maxResults publishedAfter channelId s task of
        (s1, videos) \<Rightarrow>
          (case finish_all net token maxResults publishedAfter s1 rest of
             (s2, rs) \<Rightarrow> (s2, (channelId, videos) # rs)))"

text \<open>
  \<open>await Promise.all(batchPromises)\<close> under a schedule: all calls start at \<open>ReadCache\<close>, and
  the results come in the order of the batch, once every call is over and the last timer
  has fired.
\<close>

definition promise_all ::
  "upstream \<Rightarrow> world \<Rightarrow> string \<Rightarrow> int \<Rightarrow> int option \<Rightarrow> nat list \<Rightarrow> string list
     \<Rightarrow> world \<times> (string \<times> api_data) list" where
  "promise_all net w token maxResultsPerChannel publishedAfter schedule batch =
     (case run_schedule net token maxResultsPerChannel publishedAfter schedule (w, now w)
             (map (\<lambda>channelId. (channelId, ReadCache)) batch) of
        (s1, tasks) \<Rightarrow>
          (case finish_all net token maxResultsPerChannel publishedAfter s1 tasks of
             ((w2, wake), batchResults) \<Rightarrow> (w2\<lparr>now := max (now w2) wake\<rparr>, batchResults)))"

text \<open>
  The loop over the batches; a batch is the last one when none follows it. Each batch runs
  under its own schedule, the next one of \<open>schedules\<close> (the empty schedule when the list is
  used up).
\<close>

fun channel_batches_loop ::
  "upstream \<Rightarrow> world \<Rightarrow> string \<Rightarrow> int \<Rightarrow> int option \<Rightarrow> nat list list \<Rightarrow> string list list
     \<Rightarrow> (string \<rightharpoonup> api_data) \<Rightarrow> world \<times> (string \<rightharpoonup> api_data)" where
  "channel_batches_loop net w token maxResultsPerChannel publishedAfter schedules [] results =
     (w, results)"
| "channel_batches_loop net w token maxResultsPerChannel publishedAfter schedules (batch # rest) results =
     (case promise_all net w token maxResultsPerChannel publishedAfter
             (case schedules of [] \<Rightarrow> [] | schedule # later \<Rightarrow> schedule) batch of
        (w1, batchResults) \<Rightarrow>
          (let results1 = fold (\<lambda>(channelId, videos) m. m(channelId \<mapsto> videos)) batchResults results;
               w2 = (if rest \<noteq> [] then delay w1 100 else w1)
           in channel_batches_loop net w2 token maxResultsPerChannel publishedAfter
                (tl schedules) rest results1))"

text \<open>
  \<open>batchGetChannelVideos\<close>, under the schedules of its batches. With no schedule at all the
  calls of each batch run one after the other.
\<close>

definition batchGetChannelVideos ::
  "upstream \<Rightarrow> world \<Rightarrow> string \<Rightarrow> string list \<Rightarrow> int \<Rightarrow> int option \<Rightarrow> nat list list
     \<Rightarrow> world \<times> (string \<rightharpoonup> api_data)" where
  "batchGetChannelVideos net w token channelIds maxResultsPerChannel publishedAfter schedules =
     channel_batches_loop net w token maxResultsPerChannel publishedAfter schedules
       (batches_from 5 channelIds 0) Map.empty"

section \<open>Notions used in the statements\<close>

text \<open>A sequence of callback requests, each at its own instant and in its own environment.\<close>

fun callbacks ::
  "kv_store \<Rightarrow> (callback_env \<times> int \<times> callback_request) list \<Rightarrow> kv_store \<times> callback_outcome list" where
  "callbacks kv0 [] = (kv0, [])"
| "callbacks kv0 ((env, t, req) # rest) =
     (case callback_handler env kv0 t req of
        (kv1, out) \<Rightarrow> (case callbacks kv1 rest of (kv2, outs) \<Rightarrow> (kv2, out # outs)))"

text \<open>The outcomes of the callback that reject the request before any token is requested.\<close>

definition rejected :: "callback_outcome \<Rightarrow> bool" where
  "rejected out = (out = MethodNotAllowed \<or> out = OAuthErrorRedirect
                     \<or> out = MissingCodeOrState \<or> out = InvalidOrExpiredState)"

text \<open>The state value is recorded as used, in an entry that never expires.\<close>

definition marked_used :: "kv_store \<Rightarrow> string \<Rightarrow> bool" where
  "marked_used kv0 state =
     (case oauth_states kv0 state of
        Some (stateData, None) \<Rightarrow> used stateData
      | _ \<Rightarrow> False)"

text \<open>
  \<open>trackAPIUsage\<close> for one endpoint, applied at each of the given instants in turn: what
  that many recordings leave in the store when each of them is over before the next one
  starts. It says nothing about recordings that overlap.
\<close>

fun record_calls :: "world \<Rightarrow> string \<Rightarrow> int list \<Rightarrow> world" where
  "record_calls w endpoint [] = w"
| "record_calls w endpoint (t # ts) =
     record_calls (trackAPIUsage (w\<lparr>now := t\<rparr>) endpoint 200) endpoint ts"

text \<open>The day record holds \<open>q\<close> units and \<open>c\<close> requests and outlives the day \<open>day\<close>.\<close>

definition day_record :: "world \<Rightarrow> int \<Rightarrow> string \<Rightarrow> int \<Rightarrow> int \<Rightarrow> bool" where
  "day_record w day d q c =
     (\<exists>r ex. api_usage (kv w) d = Some (r, Some ex) \<and> (day + 1) * 86400000 \<le> ex
            \<and> quotaUsed r = q \<and> requestCount r = c)"

text \<open>A reply that the client accepts: a success status with a body that parses.\<close>

fun succeeds :: "fetch_result \<Rightarrow> bool" where
  "succeeds (Rejected msg) = False"
| "succeeds (Responded response) = (ok response \<and> isl (payload response) = False)"

text \<open>A call of one of the three read operations, with its arguments.\<close>

datatype read_call =
  Subscriptions string int "string option"
| ChannelVideos string string int "string option" "int option"
| VideoDetails string "string list"

fun run_read :: "upstream \<Rightarrow> world \<Rightarrow> read_call \<Rightarrow> world \<times> (api_error + api_data)" where
  "run_read net w (Subscriptions token maxResults pageToken) =
     getSubscriptions net w token maxResults pageToken"
| "run_read net w (ChannelVideos token channelId maxResults pageToken publishedAfter) =
     getChannelVideos net w token channelId maxResults pageToken publishedAfter"
| "run_read net w (VideoDetails token videoIds) =
     getVideoDetails net w token videoIds"

text \<open>The kind of upstream call that a read operation makes: the endpoint it calls.\<close>

fun read_endpoint :: "read_call \<Rightarrow> string" where
  "read_endpoint (Subscriptions token maxResults pageToken) = ''subscriptions''"
| "read_endpoint (ChannelVideos token channelId maxResults pageToken publishedAfter) = ''search''"
| "read_endpoint (VideoDetails token videoIds) = ''videos''"

text \<open>
  Read operations made one after the other, each at its own instant: an operation starts
  when the one before it is over. The outcomes come in the order of the operations.
\<close>

fun run_reads ::
  "upstream \<Rightarrow> world \<Rightarrow> (int \<times> read_call) list \<Rightarrow> world \<times> (api_error + api_data) list" where
  "run_reads net w [] = (w, [])"
| "run_reads net w ((t, call) # rest) =
     (case run_read net (w\<lparr>now := t\<rparr>) call of
        (w1, r) \<Rightarrow> (case run_reads net w1 rest of (w2, rs) \<Rightarrow> (w2, r # rs)))"

text \<open>
  The usage record of the date \<open>d\<close> of the day \<open>day\<close> after \<open>k\<close> upstream calls to \<open>endpoint\<close>
  were recorded on a day that had no record: none, or \<open>k\<close> times the cost and \<open>k\<close> requests.
\<close>

definition usage_after :: "world \<Rightarrow> int \<Rightarrow> string \<Rightarrow> string \<Rightarrow> nat \<Rightarrow> bool" where
  "usage_after w day d endpoint k =
     (if k = 0 then api_usage (kv w) d = None
      else day_record w day d (int k * quotaCost endpoint) (int k))"

text \<open>
  The points at which a call of a batch can be when its request never succeeds and its
  channel has no cache entry: it writes nothing and ends with the empty result.
\<close>

fun never_stores :: "channel_task \<Rightarrow> bool" where
  "never_stores ReadCache = True"
| "never_stores ReadRateLimit = True"
| "never_stores SendRequest = True"
| "never_stores Backoff = True"
| "never_stores (Returned videos) = (videos = empty_videos)"
| "never_stores task = False"

text \<open>
  The points at which a call of a batch can be when its request always succeeds with the
  data \<open>d\<close>: whatever data it holds is \<open>d\<close>, and it never backs off.
\<close>

fun carries :: "api_data \<Rightarrow> channel_task \<Rightarrow> bool" where
  "carries d (WriteCache response x) = (x = d)"
| "carries d (ReadUsage response x) = (x = d)"
| "carries d (WriteUsage x today updatedUsage) = (x = d)"
| "carries d (Returned x) = (x = d)"
| "carries d Backoff = False"
| "carries d task = True"

section \<open>Concrete inputs\<close>

text \<open>An empty store, and some concrete values used to run the definitions.\<close>

definition empty_kv :: kv_store where
  "empty_kv = \<lparr> sessions = Map.empty, user_sessions = Map.empty, oauth_states = Map.empty,
                youtube_cache = Map.empty, rate_limit = Map.empty, api_usage = Map.empty \<rparr>"

definition tokens_A :: token_response where
  "tokens_A = \<lparr> access_token = ''ya29.tokenA'', refresh_token = ''1//refreshA'', expires_in = 3599 \<rparr>"

definition tokens_B :: token_response where
  "tokens_B = \<lparr> access_token = ''ya29.tokenB'', refresh_token = ''1//refreshB'', expires_in = 3599 \<rparr>"

definition session_A :: user_session where
  "session_A = \<lparr> session_id = ''sA'', userId = ''u1'', accessToken = ''ya29.tokenA'',
                  refreshToken = ''1//refreshA'', tokenExpiresAt = 3600000, createdAt = 1000,
                  lastAccessed = 1000 \<rparr>"

text \<open>User \<open>u1\<close> logs in at instant 1000 (session \<open>sA\<close>) and again at 2000 (session \<open>sB\<close>).\<close>

definition kv_two_logins :: kv_store where
  "kv_two_logins =
     fst (storeTokens (fst (storeTokens empty_kv 1000 ''sA'' ''u1'' tokens_A)) 2000 ''sB'' ''u1'' tokens_B)"

text \<open>A token endpoint that grants one-minute tokens, and one that refuses.\<close>

definition idp_short :: "string \<Rightarrow> token_endpoint_reply" where
  "idp_short rt = Ok \<lparr> raw_access_token = ''ya29.fresh'', raw_refresh_token = None,
                        raw_expires_in = 60 \<rparr>"

definition idp_refuses :: "string \<Rightarrow> token_endpoint_reply" where
  "idp_refuses rt = NotOk ''invalid_grant''"

text \<open>A callback environment in which every outside call succeeds, and a callback request.\<close>

definition env_ok :: callback_env where
  "env_ok = \<lparr> configured = True, exchange = (\<lambda>code. Inr tokens_A),
               userinfo = (\<lambda>tok. Some ''u1''), fresh_uuid = ''sA'' \<rparr>"

definition callback_req :: "string \<Rightarrow> string \<Rightarrow> callback_request" where
  "callback_req code state =
     \<lparr> req_method = ''GET'', req_code = Some code, req_state = Some state, req_error = None \<rparr>"

text \<open>An upstream service that answers every request with status 200 and one item.\<close>

definition one_item :: api_data where
  "one_item = \<lparr> items = [''item-1''], nextPageToken = None, pageInfo = Some (1, 1) \<rparr>"

definition ok_response :: http_response where
  "ok_response = \<lparr> status = 200, statusText = ''OK'', error_reason = None, error_code = None,
                    payload = Inr one_item \<rparr>"

definition upstream_ok :: upstream where
  "upstream_ok history req = Responded ok_response"

text \<open>
  The world with an empty store at instant \<open>t\<close>, and a world at 2026-11-02T15:00:00.123Z
  in which 9500 quota units are recorded for the current day and nothing is cached.
\<close>

definition empty_world :: "int \<Rightarrow> world" where
  "empty_world t = \<lparr> kv = empty_kv, now = t, requests = [] \<rparr>"

definition over_quota_world :: world where
  "over_quota_world =
     \<lparr> kv = empty_kv\<lparr>api_usage :=
                  kv_set Map.empty (toISODate 1793631600123)
                    \<lparr> quotaUsed = 9500, resetTime = 1793700000000, requestCount = 95 \<rparr>
                    (expireIn 1793631600000 (24 * 60 * 60 * 1000))\<rparr>,
       now = 1793631600123, requests = [] \<rparr>"

text \<open>A world whose cache holds, under \<open>k\<close>, an entry that expired at instant 600000.\<close>

definition stale_entry :: cache_entry where
  "stale_entry = \<lparr> data = one_item, cachedAt = 0, expiresAt = 600000 \<rparr>"

definition stale_world :: world where
  "stale_world =
     \<lparr> kv = empty_kv\<lparr>youtube_cache := kv_set Map.empty ''k'' stale_entry None\<rparr>,
       now = 600001, requests = [] \<rparr>"

text \<open>A world in which the key read by \<open>checkRateLimit\<close> holds 9500 units.\<close>

definition rate_limited_world :: world where
  "rate_limited_world =
     \<lparr> kv = empty_kv\<lparr>rate_limit :=
                  kv_set Map.empty ''youtube_api''
                    \<lparr> quotaUsed = 9500, resetTime = 1793700000000, requestCount = 95 \<rparr> None\<rparr>,
       now = 1793631600123, requests = [] \<rparr>"

text \<open>
  Two lists of 120 video ids: in the first the three chunks hold different ids, in the
  second the first two chunks hold the same ids.
\<close>

definition ids_abc :: "string list" where
  "ids_abc = replicate 50 ''a'' @ replicate 50 ''b'' @ replicate 20 ''c''"

definition ids_aac :: "string list" where
  "ids_aac = replicate 50 ''a'' @ replicate 50 ''a'' @ replicate 20 ''c''"

text \<open>An upstream service that answers 500 for the channel \<open>UCbad\<close> and 200 otherwise.\<close>

definition error_response :: http_response where
  "error_response = \<lparr> status = 500, statusText = ''Internal Server Error'',
                       error_reason = None, error_code = Some ''500'', payload = Inl ''no body'' \<rparr>"

definition upstream_one_bad :: upstream where
  "upstream_one_bad history req =
     (if (''channelId'', ''UCbad'') \<in> set (url_params req) then Responded error_response
      else Responded ok_response)"

text \<open>Six channels, so that the batch operation runs two batches.\<close>

definition six_channels :: "string list" where
  "six_channels = [''UC1'', ''UC2'', ''UCbad'', ''UC3'', ''UC4'', ''UC5'']"

text \<open>
  Three reads of channel videos on 2026-11-02, the third one of the channel of the first,
  four minutes after it; and two channels, for a batch of two concurrent calls.
\<close>

definition three_reads :: "(int \<times> read_call) list" where
  "three_reads =
     [(1793631600123, ChannelVideos ''ya29.tokenA'' ''UC1'' 10 None None),
      (1793631700000, ChannelVideos ''ya29.tokenA'' ''UC2'' 10 None None),
      (1793631840123, ChannelVideos ''ya29.tokenA'' ''UC1'' 10 None None)]"

definition two_channels :: "string list" where
  "two_channels = [''UC1'', ''UC2'']"

text \<open>
  The schedule under which two calls take their steps in turn, and the one under which
  the first call is over before the second one starts.
\<close>

definition in_turn :: "nat list" where
  "in_turn = [0, 1, 0, 1, 0, 1, 0, 1, 0, 1, 0, 1]"

definition one_by_one :: "nat list" where
  "one_by_one = [0, 0, 0, 0, 0, 0, 1, 1, 1, 1, 1, 1]"
section \<open>The store\<close>

lemma kv_get_set_same [simp]: "kv_get (kv_set tb k v None) t k = Some v"
  by (simp add: kv_get_def kv_set_def)

lemma kv_get_delete_same [simp]: "kv_get (kv_delete tb k) t k = None"
  by (simp add: kv_get_def kv_delete_def)

lemma kv_get_set_other [simp]: "k' \<noteq> k \<Longrightarrow> kv_get (kv_set tb k v ex) t k' = kv_get tb t k'"
  by (simp add: kv_get_def kv_set_def)

lemma kv_get_delete_other [simp]: "k' \<noteq> k \<Longrightarrow> kv_get (kv_delete tb k) t k' = kv_get tb t k'"
  by (simp add: kv_get_def kv_delete_def)

lemma deleteSession_found:
  assumes "kv_get (sessions kv0) t sessionId = Some s"
  shows "deleteSession kv0 t sessionId =
           kv0\<lparr> sessions := kv_delete (sessions kv0) sessionId,
               user_sessions := kv_delete (user_sessions kv0) (userId s) \<rparr>"
  using assms
  by (simp add: deleteSession_def getStoredTokens_def Let_def kv_delete_def kv_set_def)

text \<open>
  Claim C6, as amended. For a session id present in the store, \<open>deleteSession\<close> removes the
  primary session record and removes the secondary pointer of that session's user
  unconditionally, whatever session id the pointer targets. Every other session record and
  every other user's pointer reads as before, and the other tables are untouched.
\<close>

theorem deleteSession_removes_record_and_pointer:
  assumes "kv_get (sessions kv0) t sessionId = Some s"
  shows "kv_get (sessions (deleteSession kv0 t sessionId)) t' sessionId = None
       \<and> kv_get (user_sessions (deleteSession kv0 t sessionId)) t' (userId s) = None
       \<and> (\<forall>k. k \<noteq> sessionId \<longrightarrow>
             kv_get (sessions (deleteSession kv0 t sessionId)) t' k = kv_get (sessions kv0) t' k)
       \<and> (\<forall>u. u \<noteq> userId s \<longrightarrow>
             kv_get (user_sessions (deleteSession kv0 t sessionId)) t' u
               = kv_get (user_sessions kv0) t' u)
       \<and> oauth_states (deleteSession kv0 t sessionId) = oauth_states kv0
       \<and> youtube_cache (deleteSession kv0 t sessionId) = youtube_cache kv0
       \<and> rate_limit (deleteSession kv0 t sessionId) = rate_limit kv0
       \<and> api_usage (deleteSession kv0 t sessionId) = api_usage kv0"
  by (simp add: deleteSession_found [OF assms])

lemma kv_two_logins_sA:
  "kv_get (sessions kv_two_logins) 3000 ''sA'' = Some session_A"
  by (simp add: kv_two_logins_def storeTokens_def Let_def empty_kv_def session_A_def tokens_A_def
      tokens_B_def kv_get_def kv_set_def)

theorem deleteSession_removes_record_and_pointer_witness:
  "kv_get (sessions kv_two_logins) 3000 ''sA'' = Some session_A
   \<and> kv_get (sessions (deleteSession kv_two_logins 3000 ''sA'')) 4000 ''sA'' = None
   \<and> kv_get (user_sessions (deleteSession kv_two_logins 3000 ''sA'')) 4000 ''u1'' = None
   \<and> kv_get (sessions (deleteSession kv_two_logins 3000 ''sA'')) 4000 ''sB''
       = kv_get (sessions kv_two_logins) 4000 ''sB''"
proof -
  have h: "kv_get (sessions kv_two_logins) 3000 ''sA'' = Some session_A"
    by (rule kv_two_logins_sA)
  have u: "userId session_A = ''u1''"
    by (simp add: session_A_def)
  from deleteSession_removes_record_and_pointer [OF h, of 4000] h u show ?thesis
    by simp
qed

text \<open>
  Claim C6 as stated fails: user \<open>u1\<close> has the older session \<open>sA\<close> and the newer session
  \<open>sB\<close>, and the pointer targets \<open>sB\<close>. Deleting \<open>sA\<close> removes the pointer all the same.
\<close>

theorem deleteSession_pointer_counterexample:
  "kv_get (sessions kv_two_logins) 3000 ''sA'' = Some session_A
   \<and> kv_get (user_sessions kv_two_logins) 3000 ''u1'' = Some ''sB''
   \<and> kv_get (user_sessions (deleteSession kv_two_logins 3000 ''sA'')) 3000 ''u1'' = None"
proof -
  have h: "kv_get (sessions kv_two_logins) 3000 ''sA'' = Some session_A"
    by (rule kv_two_logins_sA)
  have p: "kv_get (user_sessions kv_two_logins) 3000 ''u1'' = Some ''sB''"
    by (simp add: kv_two_logins_def storeTokens_def Let_def)
  have d: "kv_get (user_sessions (deleteSession kv_two_logins 3000 ''sA'')) 3000 ''u1'' = None"
    by (simp add: deleteSession_found [OF h] session_A_def)
  from h p d show ?thesis by simp
qed

section \<open>Keeping the token valid\<close>

text \<open>
  Claim C2, as amended. For a stored session, \<open>ensureValidToken\<close> either returns a session
  whose \<open>tokenExpiresAt\<close> is at least 5 minutes after the current instant, or returns a
  refreshed session that expires exactly \<open>expires_in\<close> seconds after the current instant
  where the token endpoint granted fewer than 300 seconds, or raises the error; in the error
  case the primary record of the session and the secondary pointer of its user are gone
  from the store.
\<close>

theorem ensureValidToken_fresh_or_invalidated:
  assumes stored: "kv_get (sessions kv0) t (session_id session) = Some session"
  shows "(\<exists>s. snd (ensureValidToken idp kv0 t session) = Inr s
            \<and> (t + 5 * 60 * 1000 \<le> tokenExpiresAt s
               \<or> (\<exists>newTokens. isTokenExpired t session
                     \<and> refreshAccessToken idp (refreshToken session) = Inr newTokens
                     \<and> expires_in newTokens < 300
                     \<and> tokenExpiresAt s = t + expires_in newTokens * 1000)))
       \<or> (\<exists>e. snd (ensureValidToken idp kv0 t session) = Inl e
            \<and> kv_get (sessions (fst (ensureValidToken idp kv0 t session))) t' (session_id session) = None
            \<and> kv_get (user_sessions (fst (ensureValidToken idp kv0 t session))) t' (userId session) = None)"
proof (cases "isTokenExpired t session")
  case False
  then show ?thesis
    by (simp add: ensureValidToken_def isTokenExpired_def Let_def)
next
  case expired: True
  show ?thesis
  proof (cases "refreshAccessToken idp (refreshToken session)")
    case (Inl e)
    with expired show ?thesis
      by (simp add: ensureValidToken_def deleteSession_found [OF stored])
  next
    case (Inr newTokens)
    show ?thesis
    proof (cases "expires_in newTokens < 300")
      case True
      with expired Inr show ?thesis
        by (simp add: ensureValidToken_def Let_def)
    next
      case False
      then have "t + 5 * 60 * 1000 \<le> t + expires_in newTokens * 1000"
        by simp
      with expired Inr show ?thesis
        by (simp add: ensureValidToken_def Let_def)
    qed
  qed
qed

theorem ensureValidToken_fresh_or_invalidated_witness:
  "kv_get (sessions kv_two_logins) 3500000 (session_id session_A) = Some session_A
   \<and> snd (ensureValidToken idp_refuses kv_two_logins 3500000 session_A)
        = Inl ''Token refresh failed: Token refresh failed: invalid_grant''
   \<and> kv_get (sessions (fst (ensureValidToken idp_refuses kv_two_logins 3500000 session_A)))
        3500000 ''sA'' = None
   \<and> kv_get (user_sessions (fst (ensureValidToken idp_refuses kv_two_logins 3500000 session_A)))
        3500000 ''u1'' = None"
proof -
  have h: "kv_get (sessions kv_two_logins) 3500000 (session_id session_A) = Some session_A"
    by (simp add: kv_two_logins_def storeTokens_def Let_def empty_kv_def session_A_def tokens_A_def
        tokens_B_def kv_get_def kv_set_def)
  have r: "snd (ensureValidToken idp_refuses kv_two_logins 3500000 session_A)
             = Inl ''Token refresh failed: Token refresh failed: invalid_grant''"
    by (simp add: ensureValidToken_def isTokenExpired_def refreshAccessToken_def idp_refuses_def
        session_A_def)
  have f: "session_id session_A = ''sA''" "userId session_A = ''u1''"
    by (simp_all add: session_A_def)
  from ensureValidToken_fresh_or_invalidated [OF h, of idp_refuses 3500000] h r f show ?thesis
    by simp
qed

text \<open>
  Claim C2 as stated fails: the session is within the 5-minute buffer, the token endpoint
  grants a token that lives 60 seconds, and the session returned expires 1 minute after the
  current instant; no error is raised.
\<close>

theorem ensureValidToken_short_lived_counterexample:
  "kv_get (sessions kv_two_logins) 3500000 (session_id session_A) = Some session_A
   \<and> snd (ensureValidToken idp_short kv_two_logins 3500000 session_A)
        = Inr (session_A\<lparr> accessToken := ''ya29.fresh'', tokenExpiresAt := 3500000 + 60 * 1000,
                           lastAccessed := 3500000 \<rparr>)
   \<and> (3500000 + 60 * 1000 :: int) < 3500000 + 5 * 60 * 1000"
proof -
  have h: "kv_get (sessions kv_two_logins) 3500000 (session_id session_A) = Some session_A"
    by (simp add: kv_two_logins_def storeTokens_def Let_def empty_kv_def session_A_def tokens_A_def
        tokens_B_def kv_get_def kv_set_def)
  have r: "snd (ensureValidToken idp_short kv_two_logins 3500000 session_A)
        = Inr (session_A\<lparr> accessToken := ''ya29.fresh'', tokenExpiresAt := 3500000 + 60 * 1000,
                           lastAccessed := 3500000 \<rparr>)"
    by (simp add: ensureValidToken_def isTokenExpired_def refreshAccessToken_def idp_short_def
        session_A_def Let_def)
  from h r show ?thesis by simp
qed

section \<open>The CSRF state\<close>

lemma storeTokens_oauth_states [simp]:
  "oauth_states (fst (storeTokens kv0 t uuid uid tokens)) = oauth_states kv0"
  by (simp add: storeTokens_def Let_def)

lemma storeTokens_oauth_statesD:
  "storeTokens kv0 t uuid uid tokens = (kv1, sessionId) \<Longrightarrow> oauth_states kv1 = oauth_states kv0"
  by (auto simp: storeTokens_def Let_def)

lemma marked_used_kv_get:
  "marked_used kv0 state \<Longrightarrow> \<exists>sd. kv_get (oauth_states kv0) t state = Some sd \<and> used sd"
  by (auto simp: marked_used_def kv_get_def split: option.splits prod.splits)

lemma callback_rejects_used:
  assumes "marked_used kv0 state" and "req_state req = Some state"
  shows "rejected (snd (callback_handler env kv0 t req))
       \<and> (req_method req = ''GET'' \<and> \<not> truthy (req_error req)
            \<longrightarrow> callback_status (snd (callback_handler env kv0 t req)) = 400)"
proof -
  from marked_used_kv_get [OF assms(1)]
  obtain sd where "kv_get (oauth_states kv0) t state = Some sd" "used sd" by blast
  with assms(2) show ?thesis
    by (cases "req_code req") (simp_all add: callback_handler_def rejected_def)
qed

lemma callback_keeps_used:
  assumes "marked_used kv0 state"
  shows "marked_used (fst (callback_handler env kv0 t req)) state"
proof (cases "req_state req = Some state")
  case True
  from marked_used_kv_get [OF assms]
  obtain sd where "kv_get (oauth_states kv0) t state = Some sd" "used sd" by blast
  with True assms show ?thesis
    by (cases "req_code req") (simp_all add: callback_handler_def)
next
  case False
  have "oauth_states (fst (callback_handler env kv0 t req)) state = oauth_states kv0 state"
    using False
    by (auto simp: callback_handler_def Let_def kv_set_def
        dest!: storeTokens_oauth_statesD
        split: option.splits sum.splits prod.splits)
  with assms show ?thesis
    by (simp add: marked_used_def)
qed

lemma callbacks_reject_used:
  assumes "marked_used kv0 state"
  shows "list_all2 (\<lambda>(env, t, req) out.
            req_state req = Some state \<longrightarrow>
              rejected out
              \<and> (req_method req = ''GET'' \<and> \<not> truthy (req_error req) \<longrightarrow> callback_status out = 400))
           attempts (snd (callbacks kv0 attempts))"
  using assms
proof (induction attempts arbitrary: kv0)
  case Nil
  then show ?case by simp
next
  case (Cons a attempts)
  obtain env t req where a: "a = (env, t, req)" by (cases a) auto
  obtain kv1 out where h: "callback_handler env kv0 t req = (kv1, out)"
    by (cases "callback_handler env kv0 t req") auto
  obtain kv2 outs where r: "callbacks kv1 attempts = (kv2, outs)"
    by (cases "callbacks kv1 attempts") auto
  from callback_keeps_used [OF Cons.prems, of env t req] h have "marked_used kv1 state"
    by simp
  from Cons.IH [OF this] r have rest: "list_all2 (\<lambda>(env, t, req) out.
            req_state req = Some state \<longrightarrow>
              rejected out
              \<and> (req_method req = ''GET'' \<and> \<not> truthy (req_error req) \<longrightarrow> callback_status out = 400))
           attempts outs"
    by simp
  from callback_rejects_used [OF Cons.prems, of req env t] h
  have first: "req_state req = Some state \<longrightarrow>
              rejected out
              \<and> (req_method req = ''GET'' \<and> \<not> truthy (req_error req) \<longrightarrow> callback_status out = 400)"
    by simp
  from first rest show ?case
    by (simp add: a h r)
qed

lemma first_redemption:
  assumes "state \<noteq> []" and "code \<noteq> []" and "t0 \<le> t1" and "t1 < t0 + 10 * 60 * 1000"
  shows "\<not> rejected (snd (callback_handler env (fst (login_handler True state kv0 t0 ''GET'')) t1
                          (callback_req code state)))
       \<and> marked_used (fst (callback_handler env (fst (login_handler True state kv0 t0 ''GET'')) t1
                          (callback_req code state))) state"
  using assms
  by (auto simp: callback_handler_def login_handler_def callback_req_def Let_def kv_get_def
      kv_set_def expireIn_def rejected_def marked_used_def storeTokens_def
      split: sum.splits option.splits)

text \<open>
  Claim C3, as amended. A state value issued by login, when presented to the callback for
  the first time within the 10 minutes of its lifetime (with a code, by GET, without an error
  parameter), is found, verified unused and marked used: the callback goes on to the token
  exchange. From then on every callback request that carries the same state value is
  turned away before any token is requested, whatever the instant and whatever requests
  come in between; when it reaches the state check (GET, no error parameter) the response
  has status 400.
\<close>

theorem csrf_state_redeemed_once:
  assumes "state \<noteq> []" and "code \<noteq> []" and "t0 \<le> t1" and "t1 < t0 + 10 * 60 * 1000"
  shows "snd (login_handler True state kv0 t0 ''GET'') = LoginRedirect state
       \<and> \<not> rejected (snd (callback_handler env (fst (login_handler True state kv0 t0 ''GET'')) t1
                            (callback_req code state)))
       \<and> marked_used (fst (callback_handler env (fst (login_handler True state kv0 t0 ''GET'')) t1
                            (callback_req code state))) state
       \<and> list_all2 (\<lambda>(env', t, req) out.
            req_state req = Some state \<longrightarrow>
              rejected out
              \<and> (req_method req = ''GET'' \<and> \<not> truthy (req_error req) \<longrightarrow> callback_status out = 400))
           attempts
           (snd (callbacks (fst (callback_handler env (fst (login_handler True state kv0 t0 ''GET''))
                                   t1 (callback_req code state))) attempts))"
proof -
  have issued: "snd (login_handler True state kv0 t0 ''GET'') = LoginRedirect state"
    by (simp add: login_handler_def Let_def)
  note first = first_redemption [OF assms, of env kv0]
  from first have "marked_used (fst (callback_handler env (fst (login_handler True state kv0 t0 ''GET'')) t1
                            (callback_req code state))) state"
    by simp
  from callbacks_reject_used [OF this, of attempts] issued first show ?thesis
    by simp
qed

lemma first_callback_eval:
  "snd (callback_handler env_ok (fst (login_handler True ''st1'' empty_kv 0 ''GET'')) 1000
          (callback_req ''c1'' ''st1'')) = AuthSuccessRedirect ''sA''"
  by (simp add: callback_handler_def login_handler_def callback_req_def env_ok_def Let_def
      kv_get_def kv_set_def expireIn_def storeTokens_def empty_kv_def)

theorem csrf_state_redeemed_once_witness:
  "''st1'' \<noteq> [] \<and> ''c1'' \<noteq> [] \<and> (0::int) \<le> 1000 \<and> (1000::int) < 0 + 10 * 60 * 1000
   \<and> snd (callback_handler env_ok (fst (login_handler True ''st1'' empty_kv 0 ''GET'')) 1000
            (callback_req ''c1'' ''st1'')) = AuthSuccessRedirect ''sA''
   \<and> list_all2 (\<lambda>(env', t, req) out. callback_status out = 400)
        [(env_ok, 5000000000, callback_req ''c1'' ''st1'')]
        (snd (callbacks (fst (callback_handler env_ok (fst (login_handler True ''st1'' empty_kv 0 ''GET''))
                                1000 (callback_req ''c1'' ''st1'')))
                [(env_ok, 5000000000, callback_req ''c1'' ''st1'')]))"
proof -
  have h: "''st1'' \<noteq> []" "''c1'' \<noteq> []" "(0::int) \<le> 1000" "(1000::int) < 0 + 10 * 60 * 1000"
    by simp_all
  have r: "req_state (callback_req ''c1'' ''st1'') = Some ''st1''"
    "req_method (callback_req ''c1'' ''st1'') = ''GET''"
    "\<not> truthy (req_error (callback_req ''c1'' ''st1''))"
    by (simp_all add: callback_req_def)
  from csrf_state_redeemed_once [OF h, of empty_kv env_ok
      "[(env_ok, 5000000000, callback_req ''c1'' ''st1'')]"] r first_callback_eval
  show ?thesis
    by (auto simp: list_all2_Cons1)
qed

text \<open>
  Claim C3 as stated fails: a first redemption one hour after login finds the state
  expired and is answered with status 400.
\<close>

theorem csrf_state_late_redemption_counterexample:
  "snd (login_handler True ''st1'' empty_kv 0 ''GET'') = LoginRedirect ''st1''
   \<and> snd (callback_handler env_ok (fst (login_handler True ''st1'' empty_kv 0 ''GET'')) 3600000
            (callback_req ''c1'' ''st1'')) = InvalidOrExpiredState
   \<and> callback_status InvalidOrExpiredState = 400"
  by (simp add: callback_handler_def login_handler_def callback_req_def env_ok_def Let_def
      kv_get_def kv_set_def expireIn_def)

section \<open>Reading the cache\<close>

text \<open>
  Claim C4. A read of a key whose stored entry has its \<open>expiresAt\<close> in the past reports a
  miss, and after the read the store holds no readable entry under that key: where the store
  still showed the entry, the read deleted it. The stored entry is arbitrary here, so the
  case of a store that still shows an entry past its \<open>expiresAt\<close> is covered.
\<close>

theorem getFromCache_expired_is_miss:
  assumes "youtube_cache (kv w) key = Some (cacheEntry, ex)" and "expiresAt cacheEntry < now w"
  shows "snd (getFromCache w key) = None
       \<and> (\<forall>t. now w \<le> t \<longrightarrow> kv_get (youtube_cache (kv (fst (getFromCache w key)))) t key = None)
       \<and> (kv_get (youtube_cache (kv w)) (now w) key = Some cacheEntry
            \<longrightarrow> youtube_cache (kv (fst (getFromCache w key))) key = None)
       \<and> now (fst (getFromCache w key)) = now w
       \<and> requests (fst (getFromCache w key)) = requests w"
proof (cases "kv_get (youtube_cache (kv w)) (now w) key")
  case None
  with assms show ?thesis
    by (auto simp: getFromCache_def kv_get_def split: option.splits if_splits)
next
  case (Some e)
  with assms have "e = cacheEntry"
    by (auto simp: kv_get_def split: option.splits if_splits)
  with Some assms show ?thesis
    by (simp add: getFromCache_def kv_delete_def kv_get_def)
qed

theorem getFromCache_expired_is_miss_witness:
  "youtube_cache (kv stale_world) ''k'' = Some (stale_entry, None)
   \<and> expiresAt stale_entry < now stale_world
   \<and> snd (getFromCache stale_world ''k'') = None
   \<and> youtube_cache (kv (fst (getFromCache stale_world ''k''))) ''k'' = None"
proof -
  have h: "youtube_cache (kv stale_world) ''k'' = Some (stale_entry, None)"
    "expiresAt stale_entry < now stale_world"
    by (simp_all add: stale_world_def stale_entry_def kv_set_def)
  have v: "kv_get (youtube_cache (kv stale_world)) (now stale_world) ''k'' = Some stale_entry"
    by (simp add: stale_world_def kv_get_def kv_set_def)
  from getFromCache_expired_is_miss [OF h] h v show ?thesis
    by simp
qed

section \<open>No video ids\<close>

text \<open>
  Claim C10. With an empty list of video ids \<open>getVideoDetails\<close> returns \<open>{ items: [] }\<close>
  and leaves the whole world as it was: the store (cache and quota record included), the
  clock, and the list of upstream calls.
\<close>

theorem getVideoDetails_no_ids:
  "getVideoDetails net w token [] = (w, Inr \<lparr> items = [], nextPageToken = None, pageInfo = None \<rparr>)"
  by (simp add: getVideoDetails_def)

section \<open>The quota check\<close>

lemma checkRateLimit_ignores_usage:
  "checkRateLimit (w\<lparr>kv := (kv w)\<lparr>api_usage := u\<rparr>\<rparr>) = checkRateLimit w"
  by (simp add: checkRateLimit_def)

lemma trackAPIUsage_keeps_rate_limit:
  "rate_limit (kv (trackAPIUsage w endpoint st)) = rate_limit (kv w)"
  by (simp add: trackAPIUsage_def Let_def)

text \<open>
  Claim C1, evaluated where it fails. With 9500 units recorded for the current day by usage
  recording (under \<open>api_usage\<close> and today's date), the quota check passes and a subscriptions
  read that misses the cache issues the upstream call: the check reads the key
  \<open>rate_limit\<close>/\<open>youtube_api\<close>, which usage recording never writes. And where that key
  does hold more than 9000 units, the error raised is not marked as quota-exceeded.
\<close>

theorem quota_check_misses_recorded_usage:
  "getUsageStats over_quota_world
     = Some \<lparr> quotaUsed = 9500, resetTime = 1793700000000, requestCount = 95 \<rparr>
   \<and> checkRateLimit over_quota_world = None
   \<and> snd (getSubscriptions upstream_ok over_quota_world ''ya29.tokenA'' 50 None) = Inr one_item
   \<and> requests (fst (getSubscriptions upstream_ok over_quota_world ''ya29.tokenA'' 50 None))
       = [\<lparr> url_path = ''/subscriptions'',
             url_params = [(''part'', ''snippet''), (''mine'', ''true''),
                           (''maxResults'', show_int 50), (''order'', ''alphabetical'')],
             bearer = ''ya29.tokenA'' \<rparr>]
   \<and> getSubscriptions upstream_ok rate_limited_world ''ya29.tokenA'' 50 None
       = (rate_limited_world,
          Inl \<lparr> message = ''getSubscriptions failed: Approaching daily quota limit'',
                err_status = None, err_code = None, quotaExceeded = False \<rparr>)"
  by (simp add: getUsageStats_def over_quota_world_def kv_get_def kv_set_def expireIn_def
      checkRateLimit_def empty_kv_def getSubscriptions_def getFromCache_def fetch_and_cache_def
      makeRequest_def upstream_ok_def ok_response_def ok_def Let_def setCache_def
      trackAPIUsage_def rate_limited_world_def handleAPIError_def plain_error_def)

section \<open>Cache keys\<close>

lemma of_char_digit_char:
  "n < 16 \<Longrightarrow> (of_char (digit_char n) :: nat) = (if n < 10 then 48 + n else 87 + n)"
  by (simp add: digit_char_def)

lemma digit_char_inj:
  assumes "a < 16" and "b < 16" and "digit_char a = digit_char b"
  shows "a = b"
proof -
  from assms(3) have "(of_char (digit_char a) :: nat) = of_char (digit_char b)"
    by simp
  with assms(1,2) show ?thesis
    by (simp add: of_char_digit_char split: if_splits)
qed

lemma of_char_less_256: "(of_char c :: nat) < 256"
proof -
  have "(of_char c :: nat) mod 256 = of_char c" by simp
  then show ?thesis
    by (metis mod_less_divisor zero_less_numeral)
qed

lemma byte_hex_inj:
  assumes "byte_hex a = byte_hex b"
  shows "a = b"
proof -
  let ?A = "of_char a :: nat" and ?B = "of_char b :: nat"
  have lt: "?A div 16 < 16" "?B div 16 < 16" "?A mod 16 < 16" "?B mod 16 < 16"
    using of_char_less_256 [of a] of_char_less_256 [of b] by arith+
  from assms have "digit_char (?A div 16) = digit_char (?B div 16)"
    and "digit_char (?A mod 16) = digit_char (?B mod 16)"
    by (simp_all add: byte_hex_def)
  with lt have "?A div 16 = ?B div 16" and "?A mod 16 = ?B mod 16"
    by (auto intro: digit_char_inj)
  then have "?A = ?B"
    by (metis div_mult_mod_eq)
  then show ?thesis by simp
qed

lemma length_byte_hex [simp]: "length (byte_hex b) = 2"
  by (simp add: byte_hex_def)

lemma hex_inj:
  "concat (map byte_hex xs) = concat (map byte_hex ys) \<Longrightarrow> xs = ys"
proof (induction xs arbitrary: ys)
  case Nil
  then show ?case
    by (cases ys) (simp_all add: byte_hex_def)
next
  case (Cons x xs)
  then obtain y ys' where ys: "ys = y # ys'"
    by (cases ys) (simp_all add: byte_hex_def)
  with Cons.prems have "byte_hex x @ concat (map byte_hex xs) = byte_hex y @ concat (map byte_hex ys')"
    by simp
  then have "byte_hex x = byte_hex y" and "concat (map byte_hex xs) = concat (map byte_hex ys')"
    by simp_all
  with Cons.IH ys show ?case
    by (simp add: byte_hex_inj)
qed

lemma take_hex: "take (2 * n) (concat (map byte_hex xs)) = concat (map byte_hex (take n xs))"
proof (induction xs arbitrary: n)
  case Nil
  then show ?case by simp
next
  case (Cons x xs)
  show ?case
  proof (cases n)
    case 0
    then show ?thesis by simp
  next
    case (Suc m)
    with Cons.IH [of m] show ?thesis by simp
  qed
qed

lemma hashToken_prefix: "hashToken token = concat (map byte_hex (take 8 token))"
  using take_hex [of 8 token] by (simp add: hashToken_def)

lemma hashToken_eq_iff: "hashToken t1 = hashToken t2 \<longleftrightarrow> take 8 t1 = take 8 t2"
  by (auto simp: hashToken_prefix dest: hex_inj)

lemma hash_eval: "hashToken ''ya29.a0AfB_one'' = ''796132392e613041''"
  by code_simp

lemma digit_char_hex: "n < 16 \<Longrightarrow> digit_char n \<in> set ''0123456789abcdef''"
proof -
  have "list_all (\<lambda>n. digit_char n \<in> set ''0123456789abcdef'') [0..<16]"
    by code_simp
  then show "n < 16 \<Longrightarrow> digit_char n \<in> set ''0123456789abcdef''"
    by (simp add: list_all_iff)
qed

lemma byte_hex_chars: "set (byte_hex b) \<subseteq> set ''0123456789abcdef''"
proof -
  have "(of_char b :: nat) div 16 < 16" "(of_char b :: nat) mod 16 < 16"
    using of_char_less_256 [of b] by arith+
  then show ?thesis
    using digit_char_hex by (simp add: byte_hex_def)
qed

lemma hashToken_chars: "set (hashToken token) \<subseteq> set ''0123456789abcdef''"
proof -
  have "set (hashToken token) \<subseteq> set (concat (map byte_hex token))"
    unfolding hashToken_def by (rule set_take_subset)
  also have "\<dots> \<subseteq> set ''0123456789abcdef''"
    using byte_hex_chars by (auto simp del: set_simps)
  finally show ?thesis .
qed

text \<open>
  Claim C5, as amended. The cache key of a subscriptions read is built from the page token,
  the page size and the token-derived identifier \<open>hashToken(token)\<close>, and the access token
  enters it in no other way. That identifier consists of lower-case hexadecimal digits only,
  so that a token with a character that is neither such a digit nor part of the other
  components of the key does not occur in the key. The keys of a channel video list and of
  a video detail lookup are built from the request parameters alone: they are the same for
  every token.
\<close>

theorem cache_keys_and_tokens:
  "subscriptions_cacheKey t1 maxResults pageToken
     = ''subscriptions:'' @ hashToken t1 @ '':'' @ or_default pageToken ''first''
         @ '':'' @ show_int maxResults
   \<and> set (hashToken t1) \<subseteq> set ''0123456789abcdef''
   \<and> (c \<in> set t1 \<and> c \<notin> set ''0123456789abcdef'' \<and> c \<notin> set ''subscriptions:''
        \<and> c \<notin> set (or_default pageToken ''first'') \<and> c \<notin> set (show_int maxResults)
        \<longrightarrow> \<not> sublist t1 (subscriptions_cacheKey t1 maxResults pageToken))
   \<and> channel_videos_cacheKey t1 channelId maxResults pageToken publishedAfter
        = channel_videos_cacheKey t2 channelId maxResults pageToken publishedAfter
   \<and> video_details_cacheKey t1 batch = video_details_cacheKey t2 batch"
proof -
  have shape: "subscriptions_cacheKey t1 maxResults pageToken
     = ''subscriptions:'' @ hashToken t1 @ '':'' @ or_default pageToken ''first''
         @ '':'' @ show_int maxResults"
    by (simp add: subscriptions_cacheKey_def)
  have absent: "\<not> sublist t1 (subscriptions_cacheKey t1 maxResults pageToken)"
    if c: "c \<in> set t1" "c \<notin> set ''0123456789abcdef''" "c \<notin> set ''subscriptions:''"
      "c \<notin> set (or_default pageToken ''first'')" "c \<notin> set (show_int maxResults)"
  proof
    assume "sublist t1 (subscriptions_cacheKey t1 maxResults pageToken)"
    then have "set t1 \<subseteq> set (subscriptions_cacheKey t1 maxResults pageToken)"
      by (rule set_mono_sublist)
    with c(1) have "c \<in> set (subscriptions_cacheKey t1 maxResults pageToken)"
      by blast
    moreover have "set (subscriptions_cacheKey t1 maxResults pageToken)
            = set ''subscriptions:'' \<union> set (hashToken t1) \<union> set '':''
              \<union> set (or_default pageToken ''first'') \<union> set '':'' \<union> set (show_int maxResults)"
      unfolding shape by (simp only: set_append Un_assoc)
    moreover have "c \<notin> set (hashToken t1)"
      using c(2) hashToken_chars [of t1] by blast
    moreover have "c \<notin> set '':''"
      using c(3) by auto
    ultimately show False
      using c(3-5) by blast
  qed
  have others: "channel_videos_cacheKey t1 channelId maxResults pageToken publishedAfter
        = channel_videos_cacheKey t2 channelId maxResults pageToken publishedAfter
      \<and> video_details_cacheKey t1 batch = video_details_cacheKey t2 batch"
    by (simp add: channel_videos_cacheKey_def video_details_cacheKey_def)
  from shape absent hashToken_chars [of t1] others show ?thesis
    by blast
qed

theorem cache_keys_and_tokens_witness:
  "CHR ''.'' \<in> set ''ya29.a0AfB_one'' \<and> CHR ''.'' \<notin> set ''0123456789abcdef''
   \<and> CHR ''.'' \<notin> set ''subscriptions:'' \<and> CHR ''.'' \<notin> set (or_default None ''first'')
   \<and> CHR ''.'' \<notin> set (show_int 50)
   \<and> \<not> sublist ''ya29.a0AfB_one'' (subscriptions_cacheKey ''ya29.a0AfB_one'' 50 None)
   \<and> subscriptions_cacheKey ''ya29.a0AfB_one'' 50 None = ''subscriptions:796132392e613041:first:50''"
proof -
  have m: "show_int 50 = ''50''"
    by code_simp
  have h: "CHR ''.'' \<in> set ''ya29.a0AfB_one''" "CHR ''.'' \<notin> set ''0123456789abcdef''"
    "CHR ''.'' \<notin> set ''subscriptions:''" "CHR ''.'' \<notin> set (or_default None ''first'')"
    "CHR ''.'' \<notin> set (show_int 50)"
    by (simp_all add: m)
  have k: "subscriptions_cacheKey ''ya29.a0AfB_one'' 50 None = ''subscriptions:796132392e613041:first:50''"
    by (simp add: subscriptions_cacheKey_def hash_eval m)
  from cache_keys_and_tokens [of "''ya29.a0AfB_one''" 50 None "CHR ''.''"] h k show ?thesis
    by blast
qed

text \<open>
  Claim C5 as stated fails: two distinct tokens with the same first 8 bytes get the same key
  for a subscriptions read, and any two tokens get the same key for a channel video list and
  for a video detail lookup.
\<close>

theorem cache_key_collision_counterexample:
  "''ya29.a0AfB_one'' \<noteq> ''ya29.a0AfB_two''
   \<and> subscriptions_cacheKey ''ya29.a0AfB_one'' 50 None = subscriptions_cacheKey ''ya29.a0AfB_two'' 50 None
   \<and> channel_videos_cacheKey ''ya29.a0AfB_one'' ''UC123'' 25 None None
       = channel_videos_cacheKey ''ya29.a0AfB_two'' ''UC123'' 25 None None
   \<and> video_details_cacheKey ''ya29.a0AfB_one'' [''v1''] = video_details_cacheKey ''ya29.a0AfB_two'' [''v1'']"
  by (simp add: subscriptions_cacheKey_def channel_videos_cacheKey_def video_details_cacheKey_def
      hashToken_eq_iff)

section \<open>Calendar dates\<close>

text \<open>
  Two instants have the same UTC date string exactly when they lie on the same UTC day:
  the date computation is one-to-one on day numbers, and so is its rendering.
\<close>

lemma era_day_bounds:
  fixes D :: int
  assumes "0 \<le> D" and "D \<le> 146096"
  defines "n \<equiv> D - D div 1460 + D div 36524 - D div 146096"
  defines "Y \<equiv> n div 365"
  defines "doy \<equiv> D - (365 * Y + Y div 4 - Y div 100)"
  shows "0 \<le> Y \<and> Y \<le> 399 \<and> 0 \<le> doy \<and> doy \<le> 365"
proof (cases "D = 146096")
  case True
  then show ?thesis
    by (simp add: n_def Y_def doy_def)
next
  case False
  with assms(2) have D: "D \<le> 146095" by simp
  define a where "a = D div 1460"
  define b where "b = D div 36524"
  define p where "p = Y div 4"
  define q where "q = Y div 100"
  have a: "1460 * a \<le> D" "D \<le> 1460 * a + 1459"
    unfolding a_def by simp_all
  have b: "36524 * b \<le> D" "D \<le> 36524 * b + 36523"
    unfolding b_def by simp_all
  have c: "D div 146096 = 0"
    using assms(1) D by simp
  have n: "n = D - a + b"
    by (simp add: n_def a_def b_def c)
  have Y: "365 * Y \<le> n" "n \<le> 365 * Y + 364"
    unfolding Y_def by simp_all
  have p: "4 * p \<le> Y" "Y \<le> 4 * p + 3"
    unfolding p_def by simp_all
  have q: "100 * q \<le> Y" "Y \<le> 100 * q + 99"
    unfolding q_def by simp_all
  have b_range: "0 \<le> b" "b \<le> 3"
    using b assms(1) D by linarith+
  have n_lo: "36500 * b \<le> n"
    using a b b_range n by linarith
  have n_hi: "n \<le> 36500 * b + 36499"
    using a b b_range n by linarith
  have qb: "q = b"
    using n_lo n_hi Y q b_range by linarith
  have a_ge: "b \<le> a"
    using a b b_range by linarith
  have a_le: "a \<le> 100"
    using a D by linarith
  have pa: "p \<le> a"
    using Y p n a a_ge by linarith
  have ap: "a - 1 \<le> p"
    using Y p n a a_le b_range by linarith
  have doy: "doy = D - 365 * Y - p + q"
    by (simp add: doy_def p_def q_def)
  have "0 \<le> doy"
    using doy Y n pa qb by linarith
  moreover have "doy \<le> 365"
    using doy Y n ap qb by linarith
  moreover have "0 \<le> Y" "Y \<le> 399"
    using n_lo n_hi Y b_range by linarith+
  ultimately show ?thesis by simp
qed


lemma month_day_bounds:
  fixes doy :: int
  assumes "0 \<le> doy" and "doy \<le> 365"
  defines "mp \<equiv> (5 * doy + 2) div 153"
  defines "d \<equiv> doy - (153 * mp + 2) div 5 + 1"
  shows "0 \<le> mp \<and> mp \<le> 11 \<and> 1 \<le> d \<and> d \<le> 31"
proof -
  define f where "f = (153 * mp + 2) div 5"
  have mp: "153 * mp \<le> 5 * doy + 2" "5 * doy + 2 \<le> 153 * mp + 152"
    unfolding mp_def by simp_all
  have f: "5 * f \<le> 153 * mp + 2" "153 * mp + 2 \<le> 5 * f + 4"
    unfolding f_def by simp_all
  have d: "d = doy - f + 1"
    by (simp add: d_def f_def)
  from mp f d assms(1,2) show ?thesis
    by linarith
qed

text \<open>The parts of a date, as \<open>civil_from_days\<close> computes them.\<close>

lemma civil_from_days_parts:
  obtains era yoe doy mp :: int where
    "0 \<le> yoe" "yoe \<le> 399" "0 \<le> mp" "mp \<le> 11"
    "1 \<le> doy - (153 * mp + 2) div 5 + 1" "doy - (153 * mp + 2) div 5 + 1 \<le> 31"
    "z + 719468 = era * 146097 + (365 * yoe + yoe div 4 - yoe div 100) + doy"
    "civil_from_days z =
       (if (if mp < 10 then mp + 3 else mp - 9) \<le> 2 then yoe + era * 400 + 1 else yoe + era * 400,
        nat (if mp < 10 then mp + 3 else mp - 9),
        nat (doy - (153 * mp + 2) div 5 + 1))"
proof -
  define zz where "zz = z + 719468"
  define era where "era = zz div 146097"
  define doe where "doe = zz - era * 146097"
  define yoe where "yoe = (doe - doe div 1460 + doe div 36524 - doe div 146096) div 365"
  define doy where "doy = doe - (365 * yoe + yoe div 4 - yoe div 100)"
  define mp where "mp = (5 * doy + 2) div 153"
  have doe: "0 \<le> doe" "doe \<le> 146096"
    unfolding doe_def era_def minus_div_mult_eq_mod by simp_all
  from era_day_bounds [OF doe]
  have y: "0 \<le> yoe" "yoe \<le> 399" and dy: "0 \<le> doy" "doy \<le> 365"
    by (simp_all add: yoe_def doy_def)
  from month_day_bounds [OF dy]
  have m: "0 \<le> mp" "mp \<le> 11" "1 \<le> doy - (153 * mp + 2) div 5 + 1"
    "doy - (153 * mp + 2) div 5 + 1 \<le> 31"
    by (simp_all add: mp_def)
  have z: "z + 719468 = era * 146097 + (365 * yoe + yoe div 4 - yoe div 100) + doy"
    by (simp add: doy_def doe_def zz_def)
  have c: "civil_from_days z =
       (if (if mp < 10 then mp + 3 else mp - 9) \<le> 2 then yoe + era * 400 + 1 else yoe + era * 400,
        nat (if mp < 10 then mp + 3 else mp - 9),
        nat (doy - (153 * mp + 2) div 5 + 1))"
    unfolding civil_from_days_def Let_def zz_def era_def doe_def yoe_def doy_def mp_def
    by (rule refl)
  from y m z c show thesis
    by (rule that)
qed

lemma civil_from_days_range:
  assumes "civil_from_days z = (y, m, d)"
  shows "1 \<le> m \<and> m \<le> 12 \<and> 1 \<le> d \<and> d \<le> 31"
proof -
  obtain era yoe doy mp :: int where p:
    "0 \<le> mp" "mp \<le> 11"
    "1 \<le> doy - (153 * mp + 2) div 5 + 1" "doy - (153 * mp + 2) div 5 + 1 \<le> 31"
    "civil_from_days z =
       (if (if mp < 10 then mp + 3 else mp - 9) \<le> 2 then yoe + era * 400 + 1 else yoe + era * 400,
        nat (if mp < 10 then mp + 3 else mp - 9),
        nat (doy - (153 * mp + 2) div 5 + 1))"
    by (rule civil_from_days_parts [of z]) blast
  from p(5) assms have "m = nat (if mp < 10 then mp + 3 else mp - 9)"
    and "d = nat (doy - (153 * mp + 2) div 5 + 1)"
    by simp_all
  with p(1-4) show ?thesis
    by (auto split: if_splits)
qed

lemma civil_from_days_inj:
  assumes "civil_from_days z1 = civil_from_days z2"
  shows "z1 = z2"
proof -
  obtain e1 y1 d1 m1 :: int where p1:
    "0 \<le> y1" "y1 \<le> 399" "0 \<le> m1" "m1 \<le> 11"
    "1 \<le> d1 - (153 * m1 + 2) div 5 + 1" "d1 - (153 * m1 + 2) div 5 + 1 \<le> 31"
    "z1 + 719468 = e1 * 146097 + (365 * y1 + y1 div 4 - y1 div 100) + d1"
    "civil_from_days z1 =
       (if (if m1 < 10 then m1 + 3 else m1 - 9) \<le> 2 then y1 + e1 * 400 + 1 else y1 + e1 * 400,
        nat (if m1 < 10 then m1 + 3 else m1 - 9),
        nat (d1 - (153 * m1 + 2) div 5 + 1))"
    by (rule civil_from_days_parts [of z1]) blast
  obtain e2 y2 d2 m2 :: int where p2:
    "0 \<le> y2" "y2 \<le> 399" "0 \<le> m2" "m2 \<le> 11"
    "1 \<le> d2 - (153 * m2 + 2) div 5 + 1" "d2 - (153 * m2 + 2) div 5 + 1 \<le> 31"
    "z2 + 719468 = e2 * 146097 + (365 * y2 + y2 div 4 - y2 div 100) + d2"
    "civil_from_days z2 =
       (if (if m2 < 10 then m2 + 3 else m2 - 9) \<le> 2 then y2 + e2 * 400 + 1 else y2 + e2 * 400,
        nat (if m2 < 10 then m2 + 3 else m2 - 9),
        nat (d2 - (153 * m2 + 2) div 5 + 1))"
    by (rule civil_from_days_parts [of z2]) blast
  from assms p1(8) p2(8)
  have month: "nat (if m1 < 10 then m1 + 3 else m1 - 9) = nat (if m2 < 10 then m2 + 3 else m2 - 9)"
    and day: "nat (d1 - (153 * m1 + 2) div 5 + 1) = nat (d2 - (153 * m2 + 2) div 5 + 1)"
    and year: "(if (if m1 < 10 then m1 + 3 else m1 - 9) \<le> 2 then y1 + e1 * 400 + 1 else y1 + e1 * 400)
             = (if (if m2 < 10 then m2 + 3 else m2 - 9) \<le> 2 then y2 + e2 * 400 + 1 else y2 + e2 * 400)"
    by simp_all
  from month p1(3,4) p2(3,4) have m: "m1 = m2"
    by (auto split: if_splits)
  from day p1(5) p2(5) m have d: "d1 = d2"
    by simp
  from year m have "y1 + e1 * 400 = y2 + e2 * 400"
    by (simp split: if_splits)
  with p1(1,2) p2(1,2) have "e1 \<le> e2" and "e2 \<le> e1"
    by linarith+
  then have "e1 = e2"
    by simp
  with \<open>y1 + e1 * 400 = y2 + e2 * 400\<close> have "e1 = e2 \<and> y1 = y2"
    by simp
  with d p1(7) p2(7) show ?thesis
    by simp
qed

lemma decimal_of_snoc: "decimal_of (s @ [ch]) = 10 * decimal_of s + (of_char ch - 48)"
  by (simp add: decimal_of_def)

lemma decimal_of_show_nat: "decimal_of (show_nat n) = n"
proof (induction n rule: show_nat.induct)
  case (1 n)
  show ?case
  proof (cases "n < 10")
    case True
    then show ?thesis
      by (subst show_nat.simps) (simp add: decimal_of_def of_char_digit_char)
  next
    case False
    then have "n mod 10 < 16" by arith
    with False 1 show ?thesis
      by (subst show_nat.simps) (simp add: decimal_of_snoc of_char_digit_char)
  qed
qed

lemma decimal_of_zeros: "decimal_of (replicate k CHR ''0'' @ s) = decimal_of s"
proof -
  have "foldl (\<lambda>acc ch. 10 * acc + (of_char ch - 48)) (0::nat) (replicate k CHR ''0'') = 0"
    by (induction k) simp_all
  then show ?thesis
    by (simp add: decimal_of_def)
qed

lemma decimal_of_pad_nat: "decimal_of (pad_nat w n) = n"
  by (simp add: pad_nat_def decimal_of_zeros decimal_of_show_nat)

lemma pad_nat_inj: "pad_nat w a = pad_nat w b \<Longrightarrow> a = b"
  by (metis decimal_of_pad_nat)

lemma show_nat_digits: "c \<in> set (show_nat n) \<Longrightarrow> 48 \<le> (of_char c :: nat) \<and> (of_char c :: nat) \<le> 57"
proof (induction n rule: show_nat.induct)
  case (1 n)
  show ?case
  proof (cases "n < 10")
    case True
    with 1(2) have "c = digit_char n"
      by (subst (asm) show_nat.simps) simp
    with True show ?thesis
      by (simp add: of_char_digit_char)
  next
    case False
    with 1(2) have "c \<in> set (show_nat (n div 10)) \<or> c = digit_char (n mod 10)"
      by (subst (asm) show_nat.simps) auto
    then show ?thesis
    proof
      assume "c \<in> set (show_nat (n div 10))"
      with 1(1) False show ?thesis by simp
    next
      assume c: "c = digit_char (n mod 10)"
      have "n mod 10 < 10" by simp
      with c show ?thesis
        by (simp add: of_char_digit_char)
    qed
  qed
qed

lemma show_nat_not_empty: "show_nat n \<noteq> []"
  by (subst show_nat.simps) simp

lemma pad_nat_digits: "c \<in> set (pad_nat w n) \<Longrightarrow> 48 \<le> (of_char c :: nat) \<and> (of_char c :: nat) \<le> 57"
  using show_nat_digits [of c n] by (auto simp: pad_nat_def)

lemma pad_nat_not_sign: "pad_nat w n \<noteq> CHR ''-'' # s" "pad_nat w n \<noteq> CHR ''+'' # s"
  using pad_nat_digits [of "CHR ''-''" w n] pad_nat_digits [of "CHR ''+''" w n]
  by (auto simp: )

lemma show_year_inj:
  assumes "show_year y1 = show_year y2"
  shows "y1 = y2"
proof -
  consider (mid) "0 \<le> y1 \<and> y1 \<le> 9999" | (neg) "y1 < 0" | (big) "9999 < y1"
    by linarith
  then show ?thesis
  proof cases
    case mid
    then have s1: "show_year y1 = pad_nat 4 (nat y1)"
      by (simp add: show_year_def)
    consider (mid2) "0 \<le> y2 \<and> y2 \<le> 9999" | (neg2) "y2 < 0" | (big2) "9999 < y2"
      by linarith
    then show ?thesis
    proof cases
      case mid2
      then have "show_year y2 = pad_nat 4 (nat y2)"
        by (simp add: show_year_def)
      with s1 assms have "nat y1 = nat y2"
        by (auto dest: pad_nat_inj)
      with mid mid2 show ?thesis by arith
    next
      case neg2
      then have "show_year y2 = CHR ''-'' # pad_nat 6 (nat (- y2))"
        by (simp add: show_year_def)
      with s1 assms pad_nat_not_sign(1) [of 4 "nat y1"] show ?thesis
        by metis
    next
      case big2
      then have "show_year y2 = CHR ''+'' # pad_nat 6 (nat y2)"
        by (simp add: show_year_def)
      with s1 assms pad_nat_not_sign(2) [of 4 "nat y1"] show ?thesis
        by metis
    qed
  next
    case neg
    then have s1: "show_year y1 = CHR ''-'' # pad_nat 6 (nat (- y1))"
      by (simp add: show_year_def)
    consider (mid2) "0 \<le> y2 \<and> y2 \<le> 9999" | (neg2) "y2 < 0" | (big2) "9999 < y2"
      by linarith
    then show ?thesis
    proof cases
      case mid2
      then have "show_year y2 = pad_nat 4 (nat y2)"
        by (simp add: show_year_def)
      with s1 assms pad_nat_not_sign(1) [of 4 "nat y2"] show ?thesis
        by metis
    next
      case neg2
      then have "show_year y2 = CHR ''-'' # pad_nat 6 (nat (- y2))"
        by (simp add: show_year_def)
      with s1 assms have "nat (- y1) = nat (- y2)"
        by (auto dest: pad_nat_inj)
      with neg neg2 show ?thesis by arith
    next
      case big2
      then have "show_year y2 = CHR ''+'' # pad_nat 6 (nat y2)"
        by (simp add: show_year_def)
      with s1 assms show ?thesis
        by simp
    qed
  next
    case big
    then have s1: "show_year y1 = CHR ''+'' # pad_nat 6 (nat y1)"
      by (simp add: show_year_def)
    consider (mid2) "0 \<le> y2 \<and> y2 \<le> 9999" | (neg2) "y2 < 0" | (big2) "9999 < y2"
      by linarith
    then show ?thesis
    proof cases
      case mid2
      then have "show_year y2 = pad_nat 4 (nat y2)"
        by (simp add: show_year_def)
      with s1 assms pad_nat_not_sign(2) [of 4 "nat y2"] show ?thesis
        by metis
    next
      case neg2
      then have "show_year y2 = CHR ''-'' # pad_nat 6 (nat (- y2))"
        by (simp add: show_year_def)
      with s1 assms show ?thesis
        by simp
    next
      case big2
      then have "show_year y2 = CHR ''+'' # pad_nat 6 (nat y2)"
        by (simp add: show_year_def)
      with s1 assms have "nat y1 = nat y2"
        by (auto dest: pad_nat_inj)
      with big big2 show ?thesis by arith
    qed
  qed
qed

lemma length_pad_nat_2: "n < 100 \<Longrightarrow> length (pad_nat 2 n) = 2"
proof (cases "n < 10")
  case True
  then show ?thesis
    by (simp add: pad_nat_def show_nat.simps [of n])
next
  case False
  assume "n < 100"
  with False have "n div 10 < 10" by simp
  with False show ?thesis
    by (simp add: pad_nat_def show_nat.simps [of n] show_nat.simps [of "n div 10"])
qed

lemma toISODate_inj:
  assumes "toISODate t = toISODate t'"
  shows "t div 86400000 = t' div 86400000"
proof -
  obtain y m d where c: "civil_from_days (t div 86400000) = (y, m, d)"
    by (cases "civil_from_days (t div 86400000)") auto
  obtain y' m' d' where c': "civil_from_days (t' div 86400000) = (y', m', d')"
    by (cases "civil_from_days (t' div 86400000)") auto
  from civil_from_days_range [OF c] civil_from_days_range [OF c']
  have r: "m < 100" "d < 100" "m' < 100" "d' < 100"
    by simp_all
  let ?tail = "\<lambda>m d. ''-'' @ pad_nat 2 m @ ''-'' @ pad_nat 2 d"
  have len: "length (?tail m d) = length (?tail m' d')"
    using r by (simp add: length_pad_nat_2)
  from assms c c' have "show_year y @ ?tail m d = show_year y' @ ?tail m' d'"
    by (simp add: toISODate_def)
  with len append_eq_append_conv [of "show_year y" "show_year y'" "?tail m d" "?tail m' d'"]
  have "show_year y = show_year y'" and tails: "?tail m d = ?tail m' d'"
    by blast+
  then have y: "y = y'"
    by (auto dest: show_year_inj)
  from tails have "pad_nat 2 m @ (''-'' @ pad_nat 2 d) = pad_nat 2 m' @ (''-'' @ pad_nat 2 d')"
    by simp
  moreover have "length (pad_nat 2 m) = length (pad_nat 2 m')"
    using r by (simp add: length_pad_nat_2)
  ultimately have "pad_nat 2 m = pad_nat 2 m'" and "pad_nat 2 d = pad_nat 2 d'"
    by simp_all
  then have "m = m'" and "d = d'"
    by (auto dest: pad_nat_inj)
  with y c c' have "civil_from_days (t div 86400000) = civil_from_days (t' div 86400000)"
    by simp
  then show ?thesis
    by (rule civil_from_days_inj)
qed

section \<open>Recording usage\<close>

lemma day_bounds:
  fixes t :: int
  assumes "t div 86400000 = day"
  shows "day * 86400000 \<le> t" and "t < (day + 1) * 86400000"
  using assms by auto

lemma track_first:
  assumes "t div 86400000 = day" and "api_usage (kv w) (toISODate t) = None"
  shows "day_record (trackAPIUsage (w\<lparr>now := t\<rparr>) endpoint st) day (toISODate t)
           (quotaCost endpoint) 1"
  using assms day_bounds [OF assms(1)]
  by (simp add: day_record_def trackAPIUsage_def Let_def kv_get_def kv_set_def expireIn_def)

lemma track_next:
  assumes "t div 86400000 = day" and "day_record w day (toISODate t) q c"
  shows "day_record (trackAPIUsage (w\<lparr>now := t\<rparr>) endpoint st) day (toISODate t)
           (q + quotaCost endpoint) (c + 1)"
proof -
  from assms(2) obtain r ex where r: "api_usage (kv w) (toISODate t) = Some (r, Some ex)"
    "(day + 1) * 86400000 \<le> ex" "quotaUsed r = q" "requestCount r = c"
    by (auto simp: day_record_def)
  from day_bounds [OF assms(1)] r(2) have "\<not> ex \<le> t" by simp
  with r day_bounds [OF assms(1)] show ?thesis
    by (simp add: day_record_def trackAPIUsage_def Let_def kv_get_def kv_set_def expireIn_def)
qed

lemma record_calls_next:
  assumes "\<forall>t \<in> set instants. t div 86400000 = day" and "d = toISODate (day * 86400000)"
    and "day_record w day d q c"
  shows "day_record (record_calls w endpoint instants) day d
           (q + int (length instants) * quotaCost endpoint) (c + int (length instants))"
  using assms
proof (induction instants arbitrary: w q c)
  case Nil
  then show ?case by simp
next
  case (Cons t ts)
  from Cons.prems(1) have t: "t div 86400000 = day" by simp
  then have d: "toISODate t = d"
    using Cons.prems(2) by (simp add: toISODate_def)
  from track_next [OF t, of w q c endpoint 200] Cons.prems(3) d
  have "day_record (trackAPIUsage (w\<lparr>now := t\<rparr>) endpoint 200) day d (q + quotaCost endpoint) (c + 1)"
    by simp
  from Cons.IH [OF _ Cons.prems(2) this] Cons.prems(1) show ?case
    by (simp add: algebra_simps)
qed

lemma record_calls_first:
  assumes "\<forall>t \<in> set instants. t div 86400000 = day" and "d = toISODate (day * 86400000)"
    and "api_usage (kv w) d = None" and "instants \<noteq> []"
  shows "day_record (record_calls w endpoint instants) day d
           (int (length instants) * quotaCost endpoint) (int (length instants))"
proof -
  from assms(4) obtain t ts where instants: "instants = t # ts" by (cases instants) auto
  with assms(1) have t: "t div 86400000 = day" and ts: "\<forall>t \<in> set ts. t div 86400000 = day"
    by simp_all
  then have d: "toISODate t = d"
    using assms(2) by (simp add: toISODate_def)
  from track_first [OF t, of w endpoint 200] assms(3) d
  have "day_record (trackAPIUsage (w\<lparr>now := t\<rparr>) endpoint 200) day d (quotaCost endpoint) 1"
    by simp
  from record_calls_next [OF ts assms(2) this, of endpoint] show ?thesis
    by (simp add: instants algebra_simps)
qed

lemma day_record_stats:
  assumes "day_record w day (toISODate t') q c" and "t' div 86400000 = day"
  shows "\<exists>r. getUsageStats (w\<lparr>now := t'\<rparr>) = Some r \<and> quotaUsed r = q \<and> requestCount r = c"
proof -
  from assms(1) obtain r ex where r: "api_usage (kv w) (toISODate t') = Some (r, Some ex)"
    "(day + 1) * 86400000 \<le> ex" "quotaUsed r = q" "requestCount r = c"
    by (auto simp: day_record_def)
  from day_bounds [OF assms(2)] r(2) have "\<not> ex \<le> t'" by simp
  with r show ?thesis
    by (simp add: getUsageStats_def kv_get_def)
qed

lemma trackAPIUsage_other_dates:
  "d \<noteq> toISODate (now w) \<Longrightarrow> api_usage (kv (trackAPIUsage w endpoint st)) d = api_usage (kv w) d"
  by (simp add: trackAPIUsage_def Let_def kv_set_def)

section \<open>What the cache and the usage record leave alone\<close>

lemma setCache_frame [simp]:
  "now (setCache w key d ttl) = now w"
  "requests (setCache w key d ttl) = requests w"
  "rate_limit (kv (setCache w key d ttl)) = rate_limit (kv w)"
  "api_usage (kv (setCache w key d ttl)) = api_usage (kv w)"
  by (simp_all add: setCache_def Let_def)

lemma trackAPIUsage_frame [simp]:
  "now (trackAPIUsage w endpoint st) = now w"
  "requests (trackAPIUsage w endpoint st) = requests w"
  "youtube_cache (kv (trackAPIUsage w endpoint st)) = youtube_cache (kv w)"
  by (simp_all add: trackAPIUsage_def Let_def)

lemma setCache_other:
  "key' \<noteq> key \<Longrightarrow> youtube_cache (kv (setCache w key d ttl)) key' = youtube_cache (kv w) key'"
  by (simp add: setCache_def Let_def kv_set_def)

lemma setCache_same:
  "youtube_cache (kv (setCache w key d ttl)) key
     = Some (\<lparr> data = d, cachedAt = now w, expiresAt = now w + ttl \<rparr>, Some (now w + ttl))"
  by (simp add: setCache_def Let_def kv_set_def expireIn_def)

lemma checkRateLimit_cong:
  "rate_limit (kv w') = rate_limit (kv w) \<Longrightarrow> now w' = now w \<Longrightarrow> checkRateLimit w' = checkRateLimit w"
  by (simp add: checkRateLimit_def)

lemma trackAPIUsage_cong:
  "api_usage (kv w') = api_usage (kv w) \<Longrightarrow> now w' = now w \<Longrightarrow>
     api_usage (kv (trackAPIUsage w' endpoint st')) = api_usage (kv (trackAPIUsage w endpoint st))"
  by (simp add: trackAPIUsage_def Let_def split: option.splits)

lemma getFromCache_hit:
  assumes "youtube_cache (kv w) key = Some (e, Some ex)" and "now w < ex" and "now w \<le> expiresAt e"
  shows "getFromCache w key = (w, Some (data e))"
  using assms by (simp add: getFromCache_def kv_get_def)

lemma fetch_and_cache_ok:
  assumes "checkRateLimit w = None" and "net (requests w) req = Responded r" and "ok r"
    and "payload r = Inr d"
  shows "fetch_and_cache net w req key ttl endpoint operation
           = (trackAPIUsage (setCache (w\<lparr>requests := requests w @ [req]\<rparr>) key d ttl) endpoint (status r),
              Inr d)"
  using assms by (simp add: fetch_and_cache_def makeRequest_def Let_def)

section \<open>Chunks\<close>

lemma concat_batches_from:
  "0 < n \<Longrightarrow> concat (batches_from n xs i) = drop i xs"
proof (induction n xs i rule: batches_from.induct)
  case (1 batchSize xs i)
  show ?case
  proof (cases "i < length xs")
    case True
    with 1 have "concat (batches_from batchSize xs (i + batchSize)) = drop (i + batchSize) xs"
      by simp
    with True 1(2) show ?thesis
      by (subst batches_from.simps) (simp add: add.commute [of i] flip: drop_drop)
  next
    case False
    then show ?thesis
      by (subst batches_from.simps) simp
  qed
qed

lemma batches_from_bounds:
  "b \<in> set (batches_from n xs i) \<Longrightarrow> b \<noteq> [] \<and> length b \<le> n"
proof (induction n xs i rule: batches_from.induct)
  case (1 batchSize xs i)
  from 1(2) have c: "i < length xs \<and> 0 < batchSize"
    by (subst (asm) batches_from.simps) (auto split: if_splits)
  with 1(2) have "b = take batchSize (drop i xs) \<or> b \<in> set (batches_from batchSize xs (i + batchSize))"
    by (subst (asm) batches_from.simps) simp
  then show ?case
  proof
    assume "b = take batchSize (drop i xs)"
    with c show ?thesis by simp
  next
    assume "b \<in> set (batches_from batchSize xs (i + batchSize))"
    with 1(1) c show ?thesis by simp
  qed
qed

lemma batches_120:
  assumes "length xs = 120"
  shows "batches_from 50 xs 0 = [take 50 xs, take 50 (drop 50 xs), drop 100 xs]"
proof -
  have "batches_from 50 xs 150 = []"
    using assms by (subst batches_from.simps) simp
  then have "batches_from 50 xs 100 = [drop 100 xs]"
    using assms by (subst batches_from.simps) simp
  then have "batches_from 50 xs 50 = [take 50 (drop 50 xs), drop 100 xs]"
    using assms by (subst batches_from.simps) simp
  then show ?thesis
    using assms by (subst batches_from.simps) simp
qed

section \<open>Video details in chunks\<close>

lemma getFromCache_none:
  "kv_get (youtube_cache (kv w)) (now w) key = None \<Longrightarrow> getFromCache w key = (w, None)"
  by (simp add: getFromCache_def)

text \<open>One round of the loop of \<open>getVideoDetails\<close> on a batch that is not cached.\<close>

lemma video_details_loop_miss:
  assumes "kv_get (youtube_cache (kv w)) (now w) (video_details_cacheKey token batch) = None"
    and "checkRateLimit w = None"
    and "net (requests w) (video_details_request token batch) = Responded r"
    and "ok r" and "payload r = Inr d"
  shows "video_details_loop net w token (batch # rest) acc
           = video_details_loop net
               (trackAPIUsage
                  (setCache (w\<lparr>requests := requests w @ [video_details_request token batch]\<rparr>)
                     (video_details_cacheKey token batch) d videosCacheTTL)
                  ''videos'' (status r))
               token rest (acc @ items d)"
  using assms
  by (simp add: getFromCache_none fetch_and_cache_ok)

text \<open>One round on a batch whose key holds a live entry.\<close>

lemma video_details_loop_hit:
  assumes "youtube_cache (kv w) (video_details_cacheKey token batch) = Some (e, Some ex)"
    and "now w < ex" and "now w \<le> expiresAt e"
  shows "video_details_loop net w token (batch # rest) acc
           = video_details_loop net w token rest (acc @ items (data e))"
  by (simp add: getFromCache_hit [OF assms])

text \<open>The world after a successful upstream call for a batch.\<close>

lemma after_fetch_frame:
  assumes w'_def: "w' = trackAPIUsage (setCache (w\<lparr>requests := requests w @ [req]\<rparr>) key d ttl) endpoint st"
  shows "now w' = now w"
    and "requests w' = requests w @ [req]"
    and "checkRateLimit w' = checkRateLimit w"
    and "key' \<noteq> key \<Longrightarrow> youtube_cache (kv w') key' = youtube_cache (kv w) key'"
    and "youtube_cache (kv w') key
           = Some (\<lparr> data = d, cachedAt = now w, expiresAt = now w + ttl \<rparr>, Some (now w + ttl))"
    and "api_usage (kv w') = api_usage (kv (trackAPIUsage w endpoint 200))"
proof -
  show "now w' = now w" and "requests w' = requests w @ [req]"
    by (simp_all add: w'_def)
  show "checkRateLimit w' = checkRateLimit w"
    by (rule checkRateLimit_cong) (simp_all add: w'_def trackAPIUsage_keeps_rate_limit)
  show "key' \<noteq> key \<Longrightarrow> youtube_cache (kv w') key' = youtube_cache (kv w) key'"
    by (simp add: w'_def setCache_other)
  show "youtube_cache (kv w') key
           = Some (\<lparr> data = d, cachedAt = now w, expiresAt = now w + ttl \<rparr>, Some (now w + ttl))"
    by (simp add: w'_def setCache_same)
  show "api_usage (kv w') = api_usage (kv (trackAPIUsage w endpoint 200))"
    unfolding w'_def by (rule trackAPIUsage_cong) simp_all
qed

text \<open>
  Claim C8, as amended. For a list of 120 video ids whose three chunks (ids 1-50, 51-100 and
  101-120) have pairwise distinct cache keys, none of them cached, with the quota check passing
  and the upstream service answering each of the three requests with a success,
  \<open>getVideoDetails\<close> issues exactly three upstream calls, for the sorted ids of the chunks
  of 50, 50 and 20 ids in this order, stores each response in the cache under the key of
  its chunk, records one unit of usage per call, and returns the concatenation of the items
  of the three responses. In general the chunks of a list are not empty, hold at most 50
  ids each, and their concatenation is the list.
\<close>

theorem getVideoDetails_120_ids:
  assumes len: "length videoIds = 120"
    and b: "b1 = take 50 videoIds" "b2 = take 50 (drop 50 videoIds)" "b3 = drop 100 videoIds"
    and k: "k1 = video_details_cacheKey token b1" "k2 = video_details_cacheKey token b2"
           "k3 = video_details_cacheKey token b3"
    and q: "q1 = video_details_request token b1" "q2 = video_details_request token b2"
           "q3 = video_details_request token b3"
    and keys: "k1 \<noteq> k2" "k1 \<noteq> k3" "k2 \<noteq> k3"
    and uncached: "kv_get (youtube_cache (kv w)) (now w) k1 = None"
                  "kv_get (youtube_cache (kv w)) (now w) k2 = None"
                  "kv_get (youtube_cache (kv w)) (now w) k3 = None"
    and quota: "checkRateLimit w = None"
    and up1: "net (requests w) q1 = Responded r1" "ok r1" "payload r1 = Inr d1"
    and up2: "net (requests w @ [q1]) q2 = Responded r2" "ok r2" "payload r2 = Inr d2"
    and up3: "net (requests w @ [q1, q2]) q3 = Responded r3" "ok r3" "payload r3 = Inr d3"
    and res: "res = getVideoDetails net w token videoIds"
  shows "batches_from 50 videoIds 0 = [b1, b2, b3]
       \<and> length b1 = 50 \<and> length b2 = 50 \<and> length b3 = 20
       \<and> requests (fst res) = requests w @ [q1, q2, q3]
       \<and> snd res = Inr \<lparr> items = items d1 @ items d2 @ items d3, nextPageToken = None,
                          pageInfo = None \<rparr>
       \<and> kv_get (youtube_cache (kv (fst res))) (now (fst res)) k1
           = Some \<lparr> data = d1, cachedAt = now w, expiresAt = now w + videosCacheTTL \<rparr>
       \<and> kv_get (youtube_cache (kv (fst res))) (now (fst res)) k2
           = Some \<lparr> data = d2, cachedAt = now w, expiresAt = now w + videosCacheTTL \<rparr>
       \<and> kv_get (youtube_cache (kv (fst res))) (now (fst res)) k3
           = Some \<lparr> data = d3, cachedAt = now w, expiresAt = now w + videosCacheTTL \<rparr>
       \<and> api_usage (kv (fst res)) = api_usage (kv (record_calls w ''videos'' [now w, now w, now w]))
       \<and> concat (batches_from 50 ids 0) = ids
       \<and> (\<forall>batch \<in> set (batches_from 50 ids 0). batch \<noteq> [] \<and> length batch \<le> 50)"
proof -
  define w1 where "w1 = trackAPIUsage (setCache (w\<lparr>requests := requests w @ [q1]\<rparr>) k1 d1 videosCacheTTL)
                          ''videos'' (status r1)"
  define w2 where "w2 = trackAPIUsage (setCache (w1\<lparr>requests := requests w1 @ [q2]\<rparr>) k2 d2 videosCacheTTL)
                          ''videos'' (status r2)"
  define w3 where "w3 = trackAPIUsage (setCache (w2\<lparr>requests := requests w2 @ [q3]\<rparr>) k3 d3 videosCacheTTL)
                          ''videos'' (status r3)"
  note f1 = after_fetch_frame [OF w1_def]
  note f2 = after_fetch_frame [OF w2_def]
  note f3 = after_fetch_frame [OF w3_def]
  have batches: "batches_from 50 videoIds 0 = [b1, b2, b3]"
    using batches_120 [OF len] b by simp
  have lens: "length b1 = 50 \<and> length b2 = 50 \<and> length b3 = 20"
    using len b by simp
  have step1: "video_details_loop net w token [b1, b2, b3] []
                 = video_details_loop net w1 token [b2, b3] (items d1)"
    using video_details_loop_miss [of w token b1 net r1 d1 "[b2, b3]" "[]"]
      uncached(1) quota up1 k q
    by (simp add: w1_def)
  have c2: "kv_get (youtube_cache (kv w1)) (now w1) k2 = None"
    using uncached(2) keys f1(1) f1(4) [of k2] by (simp add: kv_get_def)
  have step2: "video_details_loop net w1 token [b2, b3] (items d1)
                 = video_details_loop net w2 token [b3] (items d1 @ items d2)"
    using video_details_loop_miss [of w1 token b2 net r2 d2 "[b3]" "items d1"]
      c2 quota up2 k q f1(2,3)
    by (simp add: w2_def)
  have c3: "kv_get (youtube_cache (kv w2)) (now w2) k3 = None"
    using uncached(3) keys f1(1) f1(4) [of k3] f2(1) f2(4) [of k3] by (simp add: kv_get_def)
  have step3: "video_details_loop net w2 token [b3] (items d1 @ items d2)
                 = video_details_loop net w3 token [] (items d1 @ items d2 @ items d3)"
    using video_details_loop_miss [of w2 token b3 net r3 d3 "[]" "items d1 @ items d2"]
      c3 quota up3 k q f1(2,3) f2(2,3)
    by (simp add: w3_def)
  have ne: "length videoIds \<noteq> 0"
    using len by simp
  have result: "res = (w3, Inr \<lparr> items = items d1 @ items d2 @ items d3, nextPageToken = None,
                                  pageInfo = None \<rparr>)"
    unfolding res getVideoDetails_def batches step1 step2 step3 using ne by simp
  have reqs: "requests w3 = requests w @ [q1, q2, q3]"
    using f1(2) f2(2) f3(2) by simp
  have now3: "now w3 = now w"
    using f1(1) f2(1) f3(1) by simp
  have e1: "youtube_cache (kv w3) k1
              = Some (\<lparr> data = d1, cachedAt = now w, expiresAt = now w + videosCacheTTL \<rparr>,
                      Some (now w + videosCacheTTL))"
    using keys f3(4) [of k1] f2(4) [of k1] f1(5) by simp
  have e2: "youtube_cache (kv w3) k2
              = Some (\<lparr> data = d2, cachedAt = now w, expiresAt = now w + videosCacheTTL \<rparr>,
                      Some (now w + videosCacheTTL))"
    using keys f3(4) [of k2] f2(5) f1(1) by simp
  have e3: "youtube_cache (kv w3) k3
              = Some (\<lparr> data = d3, cachedAt = now w, expiresAt = now w + videosCacheTTL \<rparr>,
                      Some (now w + videosCacheTTL))"
    using f3(5) f2(1) f1(1) by simp
  have usage: "api_usage (kv w3) = api_usage (kv (record_calls w ''videos'' [now w, now w, now w]))"
  proof -
    have "api_usage (kv w1) = api_usage (kv (trackAPIUsage (w\<lparr>now := now w\<rparr>) ''videos'' 200))"
      using f1(6) by simp
    moreover have "api_usage (kv w2)
        = api_usage (kv (trackAPIUsage ((trackAPIUsage (w\<lparr>now := now w\<rparr>) ''videos'' 200)\<lparr>now := now w\<rparr>)
                           ''videos'' 200))"
      unfolding f2(6) by (rule trackAPIUsage_cong) (simp_all add: calculation f1(1))
    ultimately have "api_usage (kv w3)
        = api_usage (kv (trackAPIUsage
            ((trackAPIUsage ((trackAPIUsage (w\<lparr>now := now w\<rparr>) ''videos'' 200)\<lparr>now := now w\<rparr>)
                           ''videos'' 200)\<lparr>now := now w\<rparr>) ''videos'' 200))"
      unfolding f3(6) by (intro trackAPIUsage_cong) (simp_all add: f1(1) f2(1))
    then show ?thesis by simp
  qed
  have general: "concat (batches_from 50 ids 0) = ids
       \<and> (\<forall>batch \<in> set (batches_from 50 ids 0). batch \<noteq> [] \<and> length batch \<le> 50)"
    using concat_batches_from [of 50 ids 0] batches_from_bounds [of _ 50 ids 0] by auto
  have ttl: "0 < videosCacheTTL"
    by (simp add: videosCacheTTL_def)
  from batches lens reqs usage general e1 e2 e3 now3 ttl show ?thesis
    by (simp add: result kv_get_def)
qed

lemma keys_eval:
  "video_details_cacheKey ''ya29.tokenA'' (replicate 50 ''a'')
     \<noteq> video_details_cacheKey ''ya29.tokenA'' (replicate 50 ''b'')"
  "video_details_cacheKey ''ya29.tokenA'' (replicate 50 ''a'')
     \<noteq> video_details_cacheKey ''ya29.tokenA'' (replicate 20 ''c'')"
  "video_details_cacheKey ''ya29.tokenA'' (replicate 50 ''b'')
     \<noteq> video_details_cacheKey ''ya29.tokenA'' (replicate 20 ''c'')"
  by code_simp+

lemma empty_world_facts:
  "kv_get (youtube_cache (kv (empty_world t))) (now (empty_world t)) key = None"
  "checkRateLimit (empty_world t) = None"
  "requests (empty_world t) = []"
  by (simp_all add: empty_world_def empty_kv_def kv_get_def checkRateLimit_def)

lemma upstream_ok_facts:
  "upstream_ok history req = Responded ok_response"
  "ok ok_response"
  "payload ok_response = Inr one_item"
  "items one_item = [''item-1'']"
  by (simp_all add: upstream_ok_def ok_response_def ok_def one_item_def)

theorem getVideoDetails_120_ids_witness:
  "length ids_abc = 120
   \<and> video_details_cacheKey ''ya29.tokenA'' (take 50 ids_abc)
        \<noteq> video_details_cacheKey ''ya29.tokenA'' (take 50 (drop 50 ids_abc))
   \<and> batches_from 50 ids_abc 0 = [replicate 50 ''a'', replicate 50 ''b'', replicate 20 ''c'']
   \<and> requests (fst (getVideoDetails upstream_ok (empty_world 0) ''ya29.tokenA'' ids_abc))
        = [video_details_request ''ya29.tokenA'' (replicate 50 ''a''),
           video_details_request ''ya29.tokenA'' (replicate 50 ''b''),
           video_details_request ''ya29.tokenA'' (replicate 20 ''c'')]
   \<and> snd (getVideoDetails upstream_ok (empty_world 0) ''ya29.tokenA'' ids_abc)
        = Inr \<lparr> items = [''item-1'', ''item-1'', ''item-1''], nextPageToken = None, pageInfo = None \<rparr>"
proof -
  have len: "length ids_abc = 120"
    by (simp add: ids_abc_def)
  have b: "replicate 50 ''a'' = take 50 ids_abc" "replicate 50 ''b'' = take 50 (drop 50 ids_abc)"
    "replicate 20 ''c'' = drop 100 ids_abc"
    by (simp_all add: ids_abc_def)
  note u = upstream_ok_facts(1-3)
  note inst = getVideoDetails_120_ids [where w = "empty_world 0" and net = upstream_ok
      and ids = "[]",
      OF len b refl refl refl refl refl refl keys_eval
      empty_world_facts(1) empty_world_facts(1) empty_world_facts(1) empty_world_facts(2)
      u u u refl]
  from inst have c1: "batches_from 50 ids_abc 0 = [replicate 50 ''a'', replicate 50 ''b'', replicate 20 ''c'']"
    by (elim conjE)
  from inst have c2: "requests (fst (getVideoDetails upstream_ok (empty_world 0) ''ya29.tokenA'' ids_abc))
        = requests (empty_world 0)
          @ [video_details_request ''ya29.tokenA'' (replicate 50 ''a''),
             video_details_request ''ya29.tokenA'' (replicate 50 ''b''),
             video_details_request ''ya29.tokenA'' (replicate 20 ''c'')]"
    by (elim conjE)
  from inst have c3: "snd (getVideoDetails upstream_ok (empty_world 0) ''ya29.tokenA'' ids_abc)
        = Inr \<lparr> items = items one_item @ items one_item @ items one_item,
                 nextPageToken = None, pageInfo = None \<rparr>"
    by (elim conjE)
  from c1 c2 c3 keys_eval(1) len show ?thesis
    by (simp add: b [symmetric] empty_world_facts(3) upstream_ok_facts(4))
qed


text \<open>The same call when the second chunk has the key of the first.\<close>

lemma getVideoDetails_repeated_chunk:
  assumes len: "length videoIds = 120"
    and b: "b1 = take 50 videoIds" "b2 = take 50 (drop 50 videoIds)" "b3 = drop 100 videoIds"
    and k: "k1 = video_details_cacheKey token b1" "k1 = video_details_cacheKey token b2"
           "k3 = video_details_cacheKey token b3"
    and q: "q1 = video_details_request token b1" "q3 = video_details_request token b3"
    and keys: "k1 \<noteq> k3"
    and uncached: "kv_get (youtube_cache (kv w)) (now w) k1 = None"
                  "kv_get (youtube_cache (kv w)) (now w) k3 = None"
    and quota: "checkRateLimit w = None"
    and up1: "net (requests w) q1 = Responded r1" "ok r1" "payload r1 = Inr d1"
    and up3: "net (requests w @ [q1]) q3 = Responded r3" "ok r3" "payload r3 = Inr d3"
    and res: "res = getVideoDetails net w token videoIds"
  shows "requests (fst res) = requests w @ [q1, q3]
       \<and> snd res = Inr \<lparr> items = items d1 @ items d1 @ items d3, nextPageToken = None,
                          pageInfo = None \<rparr>"
proof -
  define w1 where "w1 = trackAPIUsage (setCache (w\<lparr>requests := requests w @ [q1]\<rparr>) k1 d1 videosCacheTTL)
                          ''videos'' (status r1)"
  define w3 where "w3 = trackAPIUsage (setCache (w1\<lparr>requests := requests w1 @ [q3]\<rparr>) k3 d3 videosCacheTTL)
                          ''videos'' (status r3)"
  note f1 = after_fetch_frame [OF w1_def]
  note f3 = after_fetch_frame [OF w3_def]
  have batches: "batches_from 50 videoIds 0 = [b1, b2, b3]"
    using batches_120 [OF len] b by simp
  have step1: "video_details_loop net w token [b1, b2, b3] []
                 = video_details_loop net w1 token [b2, b3] (items d1)"
    using video_details_loop_miss [of w token b1 net r1 d1 "[b2, b3]" "[]"]
      uncached(1) quota up1 k q
    by (simp add: w1_def)
  have ttl: "0 < videosCacheTTL"
    by (simp add: videosCacheTTL_def)
  have step2: "video_details_loop net w1 token [b2, b3] (items d1)
                 = video_details_loop net w1 token [b3] (items d1 @ items d1)"
    using video_details_loop_hit [of w1 token b2 _ "now w + videosCacheTTL" net "[b3]" "items d1"]
      f1(5) f1(1) k(2) ttl
    by simp
  have c3: "kv_get (youtube_cache (kv w1)) (now w1) k3 = None"
    using uncached(2) keys f1(1) f1(4) [of k3] by (simp add: kv_get_def)
  have step3: "video_details_loop net w1 token [b3] (items d1 @ items d1)
                 = video_details_loop net w3 token [] (items d1 @ items d1 @ items d3)"
    using video_details_loop_miss [of w1 token b3 net r3 d3 "[]" "items d1 @ items d1"]
      c3 quota up3 k q f1(2,3)
    by (simp add: w3_def)
  have ne: "length videoIds \<noteq> 0"
    using len by simp
  have result: "res = (w3, Inr \<lparr> items = items d1 @ items d1 @ items d3, nextPageToken = None,
                                  pageInfo = None \<rparr>)"
    unfolding res getVideoDetails_def batches step1 step2 step3 using ne by simp
  have reqs: "requests w3 = requests w @ [q1, q3]"
    using f1(2) f3(2) by simp
  from reqs show ?thesis
    by (simp add: result)
qed

text \<open>
  Claim C8 as stated fails: of these 120 ids the first two chunks hold the same ids, nothing
  is cached when the call starts, and the call issues two upstream requests, not three: the
  second chunk is answered from the cache entry that the first chunk has just stored.
\<close>

theorem getVideoDetails_repeated_chunk_counterexample:
  "length ids_aac = 120
   \<and> requests (empty_world 0) = []
   \<and> youtube_cache (kv (empty_world 0)) = Map.empty
   \<and> requests (fst (getVideoDetails upstream_ok (empty_world 0) ''ya29.tokenA'' ids_aac))
        = [video_details_request ''ya29.tokenA'' (replicate 50 ''a''),
           video_details_request ''ya29.tokenA'' (replicate 20 ''c'')]
   \<and> snd (getVideoDetails upstream_ok (empty_world 0) ''ya29.tokenA'' ids_aac)
        = Inr \<lparr> items = [''item-1'', ''item-1'', ''item-1''], nextPageToken = None, pageInfo = None \<rparr>"
proof -
  have len: "length ids_aac = 120"
    by (simp add: ids_aac_def)
  have b: "replicate 50 ''a'' = take 50 ids_aac" "replicate 50 ''a'' = take 50 (drop 50 ids_aac)"
    "replicate 20 ''c'' = drop 100 ids_aac"
    by (simp_all add: ids_aac_def)
  note u = upstream_ok_facts(1-3)
  note inst = getVideoDetails_repeated_chunk [where w = "empty_world 0" and net = upstream_ok,
      OF len b refl refl refl refl refl keys_eval(2)
      empty_world_facts(1) empty_world_facts(1) empty_world_facts(2) u u refl]
  have e: "youtube_cache (kv (empty_world 0)) = Map.empty"
    by (simp add: empty_world_def empty_kv_def)
  from inst len e show ?thesis
    by (simp add: empty_world_facts(3) upstream_ok_facts(4))
qed

section \<open>What a single read changes\<close>

lemma getFromCache_frame [simp]:
  "now (fst (getFromCache w key)) = now w"
  "requests (fst (getFromCache w key)) = requests w"
  "rate_limit (kv (fst (getFromCache w key))) = rate_limit (kv w)"
  "api_usage (kv (fst (getFromCache w key))) = api_usage (kv w)"
  by (simp_all add: getFromCache_def split: option.splits)

lemma getFromCache_cache:
  "youtube_cache (kv (fst (getFromCache w key))) key' = None
   \<or> youtube_cache (kv (fst (getFromCache w key))) key' = youtube_cache (kv w) key'"
  by (simp add: getFromCache_def kv_delete_def split: option.splits)

lemma getFromCache_Some:
  "snd (getFromCache w key) = Some x \<Longrightarrow>
     \<exists>e ex. youtube_cache (kv w) key = Some (e, ex) \<and> data e = x"
  by (auto simp: getFromCache_def kv_get_def split: option.splits if_splits)

lemma makeRequest_frame [simp]:
  "kv (fst (makeRequest net w req)) = kv w"
  by (simp add: makeRequest_def Let_def handleRateLimit_def delay_def
      split: option.splits fetch_result.splits)

lemma makeRequest_kvD: "makeRequest net w req = (w1, res) \<Longrightarrow> kv w1 = kv w"
  using makeRequest_frame [of net w req] by simp

lemma makeRequest_now: "now w \<le> now (fst (makeRequest net w req))"
  by (simp add: makeRequest_def Let_def handleRateLimit_def delay_def
      split: option.splits fetch_result.splits)

lemma makeRequest_failing:
  "\<not> succeeds (net (requests w) req) \<Longrightarrow>
     \<exists>e. snd (fetch_and_cache net w req key ttl endpoint operation) = Inl e"
  by (auto simp: fetch_and_cache_def makeRequest_def Let_def
      split: option.splits fetch_result.splits sum.splits prod.splits)

lemma fetch_and_cache_rate_limit [simp]:
  "rate_limit (kv (fst (fetch_and_cache net w req key ttl endpoint operation))) = rate_limit (kv w)"
  by (auto simp: fetch_and_cache_def Let_def trackAPIUsage_keeps_rate_limit
      dest: makeRequest_kvD split: prod.splits sum.splits)

lemma fetch_and_cache_now:
  "now w \<le> now (fst (fetch_and_cache net w req key ttl endpoint operation))"
  using makeRequest_now [of w net req]
  by (auto simp: fetch_and_cache_def Let_def split: prod.splits sum.splits)

lemma fetch_and_cache_other_key:
  assumes "key' \<noteq> key"
  shows "youtube_cache (kv (fst (fetch_and_cache net w req key ttl endpoint operation))) key'
           = youtube_cache (kv w) key'"
  using assms
  by (auto simp: fetch_and_cache_def Let_def setCache_other
      dest: makeRequest_kvD split: prod.splits sum.splits)

lemma fetch_and_cache_Inl:
  "snd (fetch_and_cache net w req key ttl endpoint operation) = Inl e \<Longrightarrow>
     kv (fst (fetch_and_cache net w req key ttl endpoint operation)) = kv w"
  by (auto simp: fetch_and_cache_def Let_def dest: makeRequest_kvD split: prod.splits sum.splits)

lemma channel_key_inj:
  "channel_videos_cacheKey token c maxResults None publishedAfter
     = channel_videos_cacheKey token c' maxResults None publishedAfter \<Longrightarrow> c = c'"
  by (simp add: channel_videos_cacheKey_def)

section \<open>The multi-channel batch\<close>

lemma task_step_now:
  "task_step net token m pa c (w, wake) task = ((w1, wake1), task1) \<Longrightarrow> now w1 = now w"
  by (cases task)
     (auto simp: Let_def split: option.splits if_splits fetch_result.splits sum.splits)

lemma task_step_rank:
  "(\<And>v. task \<noteq> Returned v) \<Longrightarrow> task_step net token m pa c (w, wake) task = (s1, task1)
     \<Longrightarrow> task_rank task1 < task_rank task"
  by (cases task)
     (auto simp: Let_def split: option.splits if_splits fetch_result.splits sum.splits)

lemma run_to_end_unfold:
  "run_to_end net token m pa c (w, wake) task =
     (case task of
        Returned v \<Rightarrow> ((w, wake), v)
      | _ \<Rightarrow> (case task_step net token m pa c (w, wake) task of
                 ((w1, wake1), task1) \<Rightarrow> run_to_end net token m pa c (w1, wake1) task1))"
  by (cases task) simp_all

lemma run_to_end_step:
  assumes "task_step net token m pa c (w, wake) task = ((w1, wake1), task1)"
  shows "run_to_end net token m pa c (w, wake) task = run_to_end net token m pa c (w1, wake1) task1"
  using assms by (cases task) auto

lemma run_to_end_inv:
  assumes step: "\<And>w wake task w1 wake1 task1. G w \<Longrightarrow> T task \<Longrightarrow>
        task_step net token m pa c (w, wake) task = ((w1, wake1), task1) \<Longrightarrow> G w1 \<and> T task1"
    and "G w" and "T task"
    and "run_to_end net token m pa c (w, wake) task = ((w', wake'), v)"
  shows "G w' \<and> T (Returned v)"
  using assms(2-)
proof (induction "task_rank task" arbitrary: w wake task rule: less_induct)
  case less
  show ?case
  proof (cases "\<exists>x. task = Returned x")
    case True
    with less.prems show ?thesis by auto
  next
    case False
    obtain w1 wake1 task1 where t: "task_step net token m pa c (w, wake) task = ((w1, wake1), task1)"
      by (metis prod.exhaust)
    from False t have r: "task_rank task1 < task_rank task"
      using task_step_rank [of task net token m pa c w wake "(w1, wake1)" task1] by auto
    from step [OF less.prems(1,2) t] have g: "G w1" and tt: "T task1" by simp_all
    from run_to_end_step [OF t] less.prems(3)
    have "run_to_end net token m pa c (w1, wake1) task1 = ((w', wake'), v)" by simp
    from less.hyps [OF r g tt this] show ?thesis .
  qed
qed

lemma run_schedule_inv:
  assumes step: "\<And>w wake c task w1 wake1 task1. G w \<Longrightarrow> T c task \<Longrightarrow>
        task_step net token m pa c (w, wake) task = ((w1, wake1), task1) \<Longrightarrow> G w1 \<and> T c task1"
    and "G (fst s)" and "\<forall>p \<in> set tasks. T (fst p) (snd p)"
  shows "G (fst (fst (run_schedule net token m pa schedule s tasks)))
       \<and> (\<forall>p \<in> set (snd (run_schedule net token m pa schedule s tasks)). T (fst p) (snd p))
       \<and> map fst (snd (run_schedule net token m pa schedule s tasks)) = map fst tasks"
  using assms(2,3)
proof (induction schedule arbitrary: s tasks)
  case Nil
  then show ?case by simp
next
  case (Cons i schedule)
  show ?case
  proof (cases "i < length tasks")
    case False
    with Cons show ?thesis by simp
  next
    case True
    obtain c task where p: "tasks ! i = (c, task)" by (cases "tasks ! i") auto
    obtain w wake where s: "s = (w, wake)" by (cases s) auto
    obtain w1 wake1 task1 where t: "task_step net token m pa c (w, wake) task = ((w1, wake1), task1)"
      by (metis prod.exhaust)
    from True p Cons.prems(2) have "T c task"
      using nth_mem [of i tasks] by force
    from step [OF _ this t] Cons.prems(1) s have g: "G w1" and tt: "T c task1" by simp_all
    have all: "\<forall>p \<in> set (tasks[i := (c, task1)]). T (fst p) (snd p)"
      using Cons.prems(2) tt set_update_subset_insert [of tasks i "(c, task1)"] by auto
    have names: "map fst (tasks[i := (c, task1)]) = map fst tasks"
      using p True by (simp add: map_update list_update_same_conv)
    have unfold: "run_schedule net token m pa (i # schedule) s tasks
                    = run_schedule net token m pa schedule (w1, wake1) (tasks[i := (c, task1)])"
      using True p s t by simp
    from Cons.IH [of "(w1, wake1)" "tasks[i := (c, task1)]"] g all names show ?thesis
      unfolding unfold by simp
  qed
qed

lemma finish_all_inv:
  assumes step: "\<And>w wake c task w1 wake1 task1. G w \<Longrightarrow> T c task \<Longrightarrow>
        task_step net token m pa c (w, wake) task = ((w1, wake1), task1) \<Longrightarrow> G w1 \<and> T c task1"
    and "G (fst s)" and "\<forall>p \<in> set tasks. T (fst p) (snd p)"
  shows "G (fst (fst (finish_all net token m pa s tasks)))
       \<and> (\<forall>p \<in> set (snd (finish_all net token m pa s tasks)). T (fst p) (Returned (snd p)))
       \<and> map fst (snd (finish_all net token m pa s tasks)) = map fst tasks"
  using assms(2,3)
proof (induction tasks arbitrary: s)
  case Nil
  then show ?case by simp
next
  case (Cons p tasks)
  obtain c task where p: "p = (c, task)" by (cases p) auto
  obtain w wake where s: "s = (w, wake)" by (cases s) auto
  obtain w1 wake1 v where r: "run_to_end net token m pa c (w, wake) task = ((w1, wake1), v)"
    by (metis prod.exhaust)
  obtain s2 rs where f: "finish_all net token m pa (w1, wake1) tasks = (s2, rs)"
    by (cases "finish_all net token m pa (w1, wake1) tasks") auto
  have "G w" "T c task" using Cons.prems p s by simp_all
  from run_to_end_inv [of G "T c" net token m pa c, OF step this r]
  have g: "G w1" and tt: "T c (Returned v)" by simp_all
  from Cons.IH [of "(w1, wake1)"] g Cons.prems(2) f
  have "G (fst s2)" "\<forall>p \<in> set rs. T (fst p) (Returned (snd p))" "map fst rs = map fst tasks"
    by simp_all
  with tt show ?case
    by (simp add: p s r f)
qed

lemma promise_all_inv:
  assumes step: "\<And>w wake c task w1 wake1 task1. G w \<Longrightarrow> T c task \<Longrightarrow>
        task_step net token m pa c (w, wake) task = ((w1, wake1), task1) \<Longrightarrow> G w1 \<and> T c task1"
    and later: "\<And>w t. G w \<Longrightarrow> now w \<le> t \<Longrightarrow> G (w\<lparr>now := t\<rparr>)"
    and start: "\<And>c. T c ReadCache"
    and "G w"
  shows "G (fst (promise_all net w token m pa schedule batch))
       \<and> (\<forall>p \<in> set (snd (promise_all net w token m pa schedule batch)). T (fst p) (Returned (snd p)))
       \<and> map fst (snd (promise_all net w token m pa schedule batch)) = batch"
proof -
  let ?tasks = "map (\<lambda>channelId. (channelId, ReadCache)) batch"
  obtain s1 tasks where r: "run_schedule net token m pa schedule (w, now w) ?tasks = (s1, tasks)"
    by (cases "run_schedule net token m pa schedule (w, now w) ?tasks") auto
  obtain w2 wake rs where f: "finish_all net token m pa s1 tasks = ((w2, wake), rs)"
    by (metis prod.exhaust)
  have "G (fst (fst (run_schedule net token m pa schedule (w, now w) ?tasks)))
       \<and> (\<forall>p \<in> set (snd (run_schedule net token m pa schedule (w, now w) ?tasks)). T (fst p) (snd p))
       \<and> map fst (snd (run_schedule net token m pa schedule (w, now w) ?tasks)) = map fst ?tasks"
  proof (rule run_schedule_inv [where G = G and T = T])
    show "G w1 \<and> T c task1"
      if "G w0" "T c task" "task_step net token m pa c (w0, wake0) task = ((w1, wake1), task1)"
      for w0 wake0 c task w1 wake1 task1
      using step [OF that] .
    show "G (fst (w, now w))"
      using assms(4) by simp
    show "\<forall>p \<in> set ?tasks. T (fst p) (snd p)"
      using start by simp
  qed
  with r have g1: "G (fst s1)" and t1: "\<forall>p \<in> set tasks. T (fst p) (snd p)" and n1: "map fst tasks = batch"
    by (simp_all add: comp_def)
  have "G (fst (fst (finish_all net token m pa s1 tasks)))
       \<and> (\<forall>p \<in> set (snd (finish_all net token m pa s1 tasks)). T (fst p) (Returned (snd p)))
       \<and> map fst (snd (finish_all net token m pa s1 tasks)) = map fst tasks"
  proof (rule finish_all_inv [where G = G and T = T])
    show "G w1 \<and> T c task1"
      if "G w0" "T c task" "task_step net token m pa c (w0, wake0) task = ((w1, wake1), task1)"
      for w0 wake0 c task w1 wake1 task1
      using step [OF that] .
    show "G (fst s1)"
      by (rule g1)
    show "\<forall>p \<in> set tasks. T (fst p) (snd p)"
      by (rule t1)
  qed
  with f have g2: "G w2" and t2: "\<forall>p \<in> set rs. T (fst p) (Returned (snd p))" and n2: "map fst rs = map fst tasks"
    by simp_all
  from later [OF g2, of "max (now w2) wake"] have "G (w2\<lparr>now := max (now w2) wake\<rparr>)"
    by simp
  with t2 n1 n2 show ?thesis
    by (simp add: promise_all_def r f)
qed

lemma checkRateLimit_later:
  assumes "checkRateLimit w = None" and "rate_limit (kv w') = rate_limit (kv w)" and "now w \<le> now w'"
  shows "checkRateLimit w' = None"
  using assms
  by (auto simp: checkRateLimit_def kv_get_def split: option.splits if_splits)

lemma fold_results_dom:
  "dom (fold (\<lambda>(channelId, videos) m. m(channelId \<mapsto> videos)) rs results) = dom results \<union> fst ` set rs"
  by (induction rs arbitrary: results) (auto split: prod.splits)

lemma fold_results_at:
  assumes "\<forall>p \<in> set rs. fst p = c \<longrightarrow> snd p = v0" and "results c = None \<or> results c = Some v0"
  shows "(fold (\<lambda>(channelId, videos) m. m(channelId \<mapsto> videos)) rs results c = None
          \<or> fold (\<lambda>(channelId, videos) m. m(channelId \<mapsto> videos)) rs results c = Some v0)
       \<and> (c \<in> fst ` set rs \<or> results c = Some v0
            \<longrightarrow> fold (\<lambda>(channelId, videos) m. m(channelId \<mapsto> videos)) rs results c = Some v0)"
  using assms
proof (induction rs arbitrary: results)
  case Nil
  then show ?case by auto
next
  case (Cons p rs)
  obtain c' v where p: "p = (c', v)" by (cases p) auto
  let ?results = "results(c' \<mapsto> v)"
  from Cons.prems p have a: "\<forall>p \<in> set rs. fst p = c \<longrightarrow> snd p = v0"
    and b: "?results c = None \<or> ?results c = Some v0"
    and c: "c' = c \<or> results c = Some v0 \<longrightarrow> ?results c = Some v0"
    by auto
  from Cons.IH [of ?results, OF a b] c show ?case
    by (auto simp: p)
qed


lemma channel_batches_loop_dom:
  "dom (snd (channel_batches_loop net w token m pa schedules batches results))
     = dom results \<union> \<Union> (set ` set batches)"
proof (induction batches arbitrary: w results schedules)
  case Nil
  then show ?case by simp
next
  case (Cons batch batches)
  let ?schedule = "case schedules of [] \<Rightarrow> [] | schedule # later \<Rightarrow> schedule"
  obtain w1 rs where r: "promise_all net w token m pa ?schedule batch = (w1, rs)"
    by (cases "promise_all net w token m pa ?schedule batch") auto
  have "map fst rs = batch"
    using promise_all_inv [of "\<lambda>w. True" "\<lambda>c task. True" net token m pa w ?schedule batch] r by simp
  then have "fst ` set rs = set batch"
    by (metis list.set_map)
  with Cons.IH show ?case
    by (auto simp: r Let_def fold_results_dom)
qed

lemma channel_batches_loop_inv:
  assumes step: "\<And>w wake c' task w1 wake1 task1. G w \<Longrightarrow> (c' = c \<longrightarrow> T task) \<Longrightarrow>
        task_step net token m pa c' (w, wake) task = ((w1, wake1), task1)
          \<Longrightarrow> G w1 \<and> (c' = c \<longrightarrow> T task1)"
    and later: "\<And>w t. G w \<Longrightarrow> now w \<le> t \<Longrightarrow> G (w\<lparr>now := t\<rparr>)"
    and start: "T ReadCache"
    and final: "\<And>v. T (Returned v) \<Longrightarrow> v = v0"
    and "G w" and "results c = None \<or> results c = Some v0"
  shows "c \<in> \<Union> (set ` set batches) \<or> results c = Some v0
           \<longrightarrow> snd (channel_batches_loop net w token m pa schedules batches results) c = Some v0"
  using assms(5,6)
proof (induction batches arbitrary: w results schedules)
  case Nil
  then show ?case by simp
next
  case (Cons batch batches)
  let ?schedule = "case schedules of [] \<Rightarrow> [] | schedule # later \<Rightarrow> schedule"
  obtain w1 rs where r: "promise_all net w token m pa ?schedule batch = (w1, rs)"
    by (cases "promise_all net w token m pa ?schedule batch") auto
  define results1 where "results1 = fold (\<lambda>(channelId, videos) m. m(channelId \<mapsto> videos)) rs results"
  define w2 where "w2 = (if batches \<noteq> [] then delay w1 100 else w1)"
  have "G (fst (promise_all net w token m pa ?schedule batch))
       \<and> (\<forall>p \<in> set (snd (promise_all net w token m pa ?schedule batch)).
             fst p = c \<longrightarrow> T (Returned (snd p)))
       \<and> map fst (snd (promise_all net w token m pa ?schedule batch)) = batch"
  proof (rule promise_all_inv [where G = G and T = "\<lambda>c' task. c' = c \<longrightarrow> T task"])
    show "G w1 \<and> (c' = c \<longrightarrow> T task1)"
      if "G w0" "c' = c \<longrightarrow> T task" "task_step net token m pa c' (w0, wake0) task = ((w1, wake1), task1)"
      for w0 wake0 c' task w1 wake1 task1
      using step [OF that] .
    show "G (w0\<lparr>now := t\<rparr>)" if "G w0" "now w0 \<le> t" for w0 t
      using later [OF that] .
    show "c' = c \<longrightarrow> T ReadCache" for c'
      using start by simp
    show "G w"
      by (rule Cons.prems(1))
  qed
  with r final have i1: "G w1" and all: "\<forall>p \<in> set rs. fst p = c \<longrightarrow> snd p = v0"
    and names: "map fst rs = batch"
    by auto
  from names have dom_rs: "fst ` set rs = set batch"
    by (metis list.set_map)
  from later [OF i1, of "now w1 + 100"] i1 have i2: "G w2"
    by (simp add: w2_def delay_def)
  from fold_results_at [of rs c v0 results, OF all Cons.prems(2)] dom_rs
  have g: "results1 c = None \<or> results1 c = Some v0"
    and h: "c \<in> set batch \<or> results c = Some v0 \<longrightarrow> results1 c = Some v0"
    by (simp_all add: results1_def)
  have unfold: "channel_batches_loop net w token m pa schedules (batch # batches) results
                  = channel_batches_loop net w2 token m pa (tl schedules) batches results1"
    by (simp add: r Let_def results1_def w2_def)
  from Cons.IH [of w2 results1 "tl schedules", OF i2 g] h show ?case
    unfolding unfold by auto
qed

text \<open>
  A channel whose upstream call always fails and that has no cache entry: it keeps having
  none whatever step any call of the batch takes, and its own call goes on to the empty
  result.
\<close>

lemma failing_task_step:
  assumes fails: "\<And>history. \<not> succeeds (net history (channel_videos_request token c m None pa))"
    and inv: "youtube_cache (kv w) (channel_videos_cacheKey token c m None pa) = None"
    and task: "c' = c \<longrightarrow> never_stores task"
    and step: "task_step net token m pa c' (w, wake) task = ((w1, wake1), task1)"
  shows "youtube_cache (kv w1) (channel_videos_cacheKey token c m None pa) = None
       \<and> (c' = c \<longrightarrow> never_stores task1)"
proof (cases "c' = c")
  case True
  with task have ns: "never_stores task" by simp
  from fails [of "requests w"] have f: "\<not> succeeds (net (requests w) (channel_videos_request token c m None pa))" .
  from ns inv step f show ?thesis
    unfolding True
    by (cases task)
       (auto simp: Let_def kv_get_def split: option.splits if_splits fetch_result.splits sum.splits)
next
  case False
  then have k: "channel_videos_cacheKey token c m None pa \<noteq> channel_videos_cacheKey token c' m None pa"
    using channel_key_inj [of token c m pa c'] by auto
  from inv step k False show ?thesis
    by (cases task)
       (auto simp: Let_def kv_delete_def setCache_other
             split: option.splits if_splits fetch_result.splits sum.splits)
qed

text \<open>
  A channel whose upstream call always succeeds with the data \<open>d\<close>: while the quota check
  passes and its cache entry, if any, holds \<open>d\<close>, this stays so whatever step any call of
  the batch takes, and its own call goes on to \<open>d\<close>.
\<close>

lemma healthy_task_step:
  assumes healthy: "\<And>history. \<exists>r. net history (channel_videos_request token c m None pa) = Responded r
                       \<and> ok r \<and> payload r = Inr d"
    and quota: "checkRateLimit w0 = None"
    and inv: "rate_limit (kv w) = rate_limit (kv w0) \<and> now w0 \<le> now w
              \<and> (\<forall>e ex. youtube_cache (kv w) (channel_videos_cacheKey token c m None pa) = Some (e, ex)
                    \<longrightarrow> data e = d)"
    and task: "c' = c \<longrightarrow> carries d task"
    and step: "task_step net token m pa c' (w, wake) task = ((w1, wake1), task1)"
  shows "(rate_limit (kv w1) = rate_limit (kv w0) \<and> now w0 \<le> now w1
          \<and> (\<forall>e ex. youtube_cache (kv w1) (channel_videos_cacheKey token c m None pa) = Some (e, ex)
                    \<longrightarrow> data e = d))
       \<and> (c' = c \<longrightarrow> carries d task1)"
proof (cases "c' = c")
  case True
  with task have ca: "carries d task" by simp
  from healthy [of "requests w"] obtain r
    where r: "net (requests w) (channel_videos_request token c m None pa) = Responded r"
      "ok r" "payload r = Inr d"
    by auto
  have q: "checkRateLimit w = None"
    using checkRateLimit_later [OF quota] inv by simp
  from ca inv step r q show ?thesis
    unfolding True
    by (cases task)
       (auto simp: Let_def kv_get_def kv_delete_def setCache_same
             split: option.splits if_splits)
next
  case False
  then have k: "channel_videos_cacheKey token c m None pa \<noteq> channel_videos_cacheKey token c' m None pa"
    using channel_key_inj [of token c m pa c'] by auto
  from inv step k False show ?thesis
    by (cases task)
       (auto simp: Let_def kv_delete_def setCache_other handleRateLimit_def delay_def
             split: option.splits if_splits fetch_result.splits sum.splits)
qed


text \<open>
  Claim C9. The map returned by the multi-channel batch operation has an entry for every
  requested channel id, and for no other. For a requested channel with no cache entry:
  if its upstream call fails whenever it is made, the channel maps to the empty result;
  if the quota check passes and its upstream call always succeeds with the data \<open>d\<close>, the
  channel maps to \<open>d\<close>, whatever happens to the other channels of the batch. This holds in
  whatever order the concurrent calls of each batch take their steps.
\<close>

theorem batchGetChannelVideos_partial_failure:
  assumes res: "res = snd (batchGetChannelVideos net w token channelIds m pa schedules)"
  shows "dom res = set channelIds
       \<and> (\<forall>c \<in> set channelIds.
            youtube_cache (kv w) (channel_videos_cacheKey token c m None pa) = None \<longrightarrow>
              ((\<forall>history. \<not> succeeds (net history (channel_videos_request token c m None pa)))
                 \<longrightarrow> res c = Some empty_videos)
            \<and> (checkRateLimit w = None
                 \<and> (\<forall>history. \<exists>r. net history (channel_videos_request token c m None pa) = Responded r
                                     \<and> ok r \<and> payload r = Inr d)
                 \<longrightarrow> res c = Some d))"
proof -
  let ?batches = "batches_from 5 channelIds 0"
  have members: "\<Union> (set ` set ?batches) = set channelIds"
    using concat_batches_from [of 5 channelIds 0] by (metis drop0 set_concat zero_less_numeral)
  have dom: "dom res = set channelIds"
    using channel_batches_loop_dom [of net w token m pa schedules ?batches Map.empty] members
    by (simp add: res batchGetChannelVideos_def)
  have each: "youtube_cache (kv w) (channel_videos_cacheKey token c m None pa) = None \<longrightarrow>
              ((\<forall>history. \<not> succeeds (net history (channel_videos_request token c m None pa)))
                 \<longrightarrow> res c = Some empty_videos)
            \<and> (checkRateLimit w = None
                 \<and> (\<forall>history. \<exists>r. net history (channel_videos_request token c m None pa) = Responded r
                                     \<and> ok r \<and> payload r = Inr d)
                 \<longrightarrow> res c = Some d)"
    if c: "c \<in> set channelIds" for c
  proof (intro impI conjI)
    assume uncached: "youtube_cache (kv w) (channel_videos_cacheKey token c m None pa) = None"
      and fails: "\<forall>history. \<not> succeeds (net history (channel_videos_request token c m None pa))"
    let ?G = "\<lambda>w'. youtube_cache (kv w') (channel_videos_cacheKey token c m None pa) = None"
    have "c \<in> \<Union> (set ` set ?batches) \<or> Map.empty c = Some empty_videos
            \<longrightarrow> snd (channel_batches_loop net w token m pa schedules ?batches Map.empty) c
                  = Some empty_videos"
    proof (rule channel_batches_loop_inv [where G = ?G and T = never_stores])
      show "?G w1 \<and> (c' = c \<longrightarrow> never_stores task1)"
        if "?G w'" "c' = c \<longrightarrow> never_stores task"
          "task_step net token m pa c' (w', wake) task = ((w1, wake1), task1)"
        for w' wake c' task w1 wake1 task1
      proof (rule failing_task_step [OF _ that])
        show "\<not> succeeds (net history (channel_videos_request token c m None pa))" for history
          using fails by simp
      qed
      show "?G (w'\<lparr>now := t\<rparr>)" if "?G w'" for w' t
        using that by simp
      show "never_stores ReadCache"
        by simp
      show "v = empty_videos" if "never_stores (Returned v)" for v
        using that by simp
      show "?G w"
        by (rule uncached)
      show "Map.empty c = None \<or> Map.empty c = Some empty_videos"
        by simp
    qed
    with c members show "res c = Some empty_videos"
      by (simp add: res batchGetChannelVideos_def)
  next
    assume uncached: "youtube_cache (kv w) (channel_videos_cacheKey token c m None pa) = None"
      and good: "checkRateLimit w = None
                 \<and> (\<forall>history. \<exists>r. net history (channel_videos_request token c m None pa) = Responded r
                                     \<and> ok r \<and> payload r = Inr d)"
    let ?G = "\<lambda>w'. rate_limit (kv w') = rate_limit (kv w) \<and> now w \<le> now w'
                  \<and> (\<forall>e ex. youtube_cache (kv w') (channel_videos_cacheKey token c m None pa) = Some (e, ex)
                        \<longrightarrow> data e = d)"
    have "c \<in> \<Union> (set ` set ?batches) \<or> Map.empty c = Some d
            \<longrightarrow> snd (channel_batches_loop net w token m pa schedules ?batches Map.empty) c = Some d"
    proof (rule channel_batches_loop_inv [where G = ?G and T = "carries d"])
      show "?G w1 \<and> (c' = c \<longrightarrow> carries d task1)"
        if "?G w'" "c' = c \<longrightarrow> carries d task"
          "task_step net token m pa c' (w', wake) task = ((w1, wake1), task1)"
        for w' wake c' task w1 wake1 task1
      proof (rule healthy_task_step [OF _ _ that])
        show "\<exists>r. net history (channel_videos_request token c m None pa) = Responded r
                \<and> ok r \<and> payload r = Inr d" for history
          using good by simp
        show "checkRateLimit w = None"
          using good by simp
      qed
      show "?G (w'\<lparr>now := t\<rparr>)" if "?G w'" "now w' \<le> t" for w' t
        using that by simp
      show "carries d ReadCache"
        by simp
      show "v = d" if "carries d (Returned v)" for v
        using that by simp
      show "?G w"
        using uncached by simp
      show "Map.empty c = None \<or> Map.empty c = Some d"
        by simp
    qed
    with c members show "res c = Some d"
      by (simp add: res batchGetChannelVideos_def)
  qed
  from dom each show ?thesis
    by blast
qed

theorem batchGetChannelVideos_partial_failure_witness:
  "dom (snd (batchGetChannelVideos upstream_one_bad (empty_world 0) ''ya29.tokenA'' six_channels 10 None
               [[0, 1, 2, 3, 4, 4, 3, 2, 1, 0], [0]]))
     = {''UC1'', ''UC2'', ''UCbad'', ''UC3'', ''UC4'', ''UC5''}
   \<and> snd (batchGetChannelVideos upstream_one_bad (empty_world 0) ''ya29.tokenA'' six_channels 10 None
            [[0, 1, 2, 3, 4, 4, 3, 2, 1, 0], [0]])
        ''UCbad'' = Some empty_videos
   \<and> snd (batchGetChannelVideos upstream_one_bad (empty_world 0) ''ya29.tokenA'' six_channels 10 None
            [[0, 1, 2, 3, 4, 4, 3, 2, 1, 0], [0]])
        ''UC5'' = Some one_item
   \<and> items empty_videos = [] \<and> items one_item \<noteq> []"
proof -
  let ?res = "snd (batchGetChannelVideos upstream_one_bad (empty_world 0) ''ya29.tokenA'' six_channels 10 None
                     [[0, 1, 2, 3, 4, 4, 3, 2, 1, 0], [0]])"
  note inst = batchGetChannelVideos_partial_failure [of ?res upstream_one_bad "empty_world 0"
      "''ya29.tokenA''" six_channels 10 None "[[0, 1, 2, 3, 4, 4, 3, 2, 1, 0], [0]]" one_item, OF refl]
  have uncached: "youtube_cache (kv (empty_world 0)) key = None" for key
    by (simp add: empty_world_def empty_kv_def)
  have bad: "\<forall>history. \<not> succeeds (upstream_one_bad history
                 (channel_videos_request ''ya29.tokenA'' ''UCbad'' 10 None None))"
    by (simp add: upstream_one_bad_def channel_videos_request_def error_response_def ok_def)
  have good: "\<forall>history. \<exists>r. upstream_one_bad history
                 (channel_videos_request ''ya29.tokenA'' ''UC5'' 10 None None) = Responded r
                 \<and> ok r \<and> payload r = Inr one_item"
    by (simp add: upstream_one_bad_def channel_videos_request_def ok_response_def ok_def)
  from inst have d: "dom ?res = set six_channels"
    by (elim conjE)
  from inst have "\<forall>c \<in> set six_channels.
            youtube_cache (kv (empty_world 0)) (channel_videos_cacheKey ''ya29.tokenA'' c 10 None None) = None \<longrightarrow>
              ((\<forall>history. \<not> succeeds (upstream_one_bad history (channel_videos_request ''ya29.tokenA'' c 10 None None)))
                 \<longrightarrow> ?res c = Some empty_videos)
            \<and> (checkRateLimit (empty_world 0) = None
                 \<and> (\<forall>history. \<exists>r. upstream_one_bad history (channel_videos_request ''ya29.tokenA'' c 10 None None) = Responded r
                                     \<and> ok r \<and> payload r = Inr one_item)
                 \<longrightarrow> ?res c = Some one_item)"
    by (elim conjE)
  then have b: "?res ''UCbad'' = Some empty_videos" and g: "?res ''UC5'' = Some one_item"
    using uncached bad good empty_world_facts(2) [of 0]
    by (auto simp: six_channels_def)
  from d b g show ?thesis
    by (auto simp: six_channels_def empty_videos_def one_item_def)
qed

end
